theory Spec2Isabelle
  imports
    Main
    "HOL-Library.Word"
    "HOL-Library.Char_ord"
    "HOL-Library.List_Lexorder"
    "HOL-Library.AList"
begin

section \<open>Go library functions used by the stream code\<close>

text \<open>
  Strings are byte lists; Go's \<open><\<close> on strings and DynamoDB's comparison of string
  attributes are both the byte-wise lexicographic order, which is the order of
  \<open>char list\<close> here.

  A Go panic (an index out of range) is a value of its own: \<open>Panic\<close>.
\<close>

datatype 'a outcome = Panic | Return 'a

definition index :: "'a list \<Rightarrow> nat \<Rightarrow> 'a outcome" where
  "index xs i = (if i < length xs then Return (xs ! i) else Panic)"

text \<open>\<open>strings.Join(parts, sep)\<close>.\<close>

fun Join :: "string list \<Rightarrow> string \<Rightarrow> string" where
  "Join [] sep = []"
| "Join [x] sep = x"
| "Join (x # y # ys) sep = x @ sep @ Join (y # ys) sep"

text \<open>\<open>strings.Split(s, sep)\<close> for a separator of one byte: the result is never empty,
  so \<open>hd\<close> and \<open>tl\<close> of the recursive result are defined.\<close>

primrec Split :: "string \<Rightarrow> char \<Rightarrow> string list" where
  "Split [] sep = [[]]"
| "Split (c # cs) sep =
     (let r = Split cs sep in if c = sep then [] # r else (c # hd r) # tl r)"

text \<open>\<open>fmt.Sprintf("%020d", x)\<close>: decimal digits, padded with zeros to a width of 20;
  the sign of a negative number takes one of the 20 places and comes before the zeros.\<close>

definition digit_char :: "nat \<Rightarrow> char" where
  "digit_char d = char_of (48 + d)"

fun digits :: "nat \<Rightarrow> string" where
  "digits n = (if n < 10 then [digit_char n] else digits (n div 10) @ [digit_char (n mod 10)])"

declare digits.simps [simp del]

definition zero_pad :: "nat \<Rightarrow> string \<Rightarrow> string" where
  "zero_pad w ds = replicate (w - length ds) CHR ''0'' @ ds"

definition Sprintf_020d :: "int \<Rightarrow> string" where
  "Sprintf_020d x =
     (if x < 0 then CHR ''-'' # zero_pad 19 (digits (nat (- x)))
      else zero_pad 20 (digits (nat x)))"

text \<open>\<open>strconv.ParseUint(s, 10, 64)\<close> and \<open>strconv.ParseInt(s, 10, 64)\<close>. On a syntax error
  the value is 0; on a range error it is the nearest representable value. The callers
  drop the error and keep the value.\<close>

datatype num_error = ErrSyntax | ErrRange

definition is_digit :: "char \<Rightarrow> bool" where
  "is_digit c \<longleftrightarrow> CHR ''0'' \<le> c \<and> c \<le> CHR ''9''"

definition digit_val :: "char \<Rightarrow> nat" where
  "digit_val c = of_char c - 48"

definition maxUint64 :: nat where
  "maxUint64 = 2 ^ 64 - 1"

fun parseUint_loop :: "nat \<Rightarrow> string \<Rightarrow> nat \<times> num_error option" where
  "parseUint_loop n [] = (n, None)"
| "parseUint_loop n (c # cs) =
     (if \<not> is_digit c then (0, Some ErrSyntax)
      else if n \<ge> maxUint64 div 10 + 1 then (maxUint64, Some ErrRange)
      else let n1 = n * 10 + digit_val c in
        if n1 > maxUint64 then (maxUint64, Some ErrRange) else parseUint_loop n1 cs)"

definition ParseUint :: "string \<Rightarrow> nat \<times> num_error option" where
  "ParseUint s = (if s = [] then (0, Some ErrSyntax) else parseUint_loop 0 s)"

definition ParseInt :: "string \<Rightarrow> int \<times> num_error option" where
  "ParseInt s =
     (if s = [] then (0, Some ErrSyntax)
      else
        let neg = (hd s = CHR ''-'');
            s' = (if hd s = CHR ''+'' \<or> hd s = CHR ''-'' then tl s else s);
            r = ParseUint s';
            un = fst r
        in if snd r = Some ErrSyntax then (0, Some ErrSyntax)
           else if \<not> neg \<and> un \<ge> 2 ^ 63 then (2 ^ 63 - 1, Some ErrRange)
           else if neg \<and> un > 2 ^ 63 then (- (2 ^ 63), Some ErrRange)
           else (if neg then - int un else int un, None))"

section \<open>XID: the stream item identifier\<close>

text \<open>
  An XID is a string. A \<open>time.Time\<close> enters the code only through \<open>Unix()\<close> and leaves it
  only through \<open>time.Unix(sec, 0)\<close>, so it is modelled by its Unix seconds, an \<open>int64\<close>
  (a 64-bit word read with \<open>sint\<close>). The sequence number is a \<open>uint64\<close>.
\<close>

type_synonym XID = string
type_synonym int64 = "64 word"
type_synonym uint64 = "64 word"

definition XStart :: XID where
  "XStart = ''00000000000000000000-00000000000000000000''"

definition XEnd :: XID where
  "XEnd = ''99999999999999999999-99999999999999999999''"

definition XAutoID :: XID where
  "XAutoID = ''*''"

definition NewXID :: "int64 \<Rightarrow> uint64 \<Rightarrow> XID" where
  "NewXID ts seq = Join [Sprintf_020d (sint ts), Sprintf_020d (uint seq)] ''-''"

definition Time :: "XID \<Rightarrow> int64 outcome" where
  "Time xid =
     (case index (Split xid CHR ''-'') 0 of
        Panic \<Rightarrow> Panic
      | Return p \<Rightarrow> Return (word_of_int (fst (ParseInt p))))"

definition Seq :: "XID \<Rightarrow> uint64 outcome" where
  "Seq xid =
     (case index (Split xid CHR ''-'') 1 of
        Panic \<Rightarrow> Panic
      | Return p \<Rightarrow> Return (word_of_nat (fst (ParseUint p))))"

definition Next :: "XID \<Rightarrow> XID outcome" where
  "Next xid =
     (case Time xid of
        Panic \<Rightarrow> Panic
      | Return t \<Rightarrow> (case Seq xid of Panic \<Rightarrow> Panic | Return s \<Rightarrow> Return (NewXID t (s + 1))))"

definition Prev :: "XID \<Rightarrow> XID outcome" where
  "Prev xid =
     (case Seq xid of
        Panic \<Rightarrow> Panic
      | Return s \<Rightarrow>
          if s \<le> 1 then Return xid
          else (case Time xid of Panic \<Rightarrow> Panic | Return t \<Rightarrow> Return (NewXID t (s - 1))))"

definition NewTimeXID :: "int64 \<Rightarrow> XID" where
  "NewTimeXID ts = NewXID ts 0"

definition First :: "XID \<Rightarrow> XID outcome" where
  "First xid =
     (case Time xid of
        Panic \<Rightarrow> Panic
      | Return t \<Rightarrow> Return (Join [Sprintf_020d (sint t), ''00000000000000000000''] ''-''))"

definition Last :: "XID \<Rightarrow> XID outcome" where
  "Last xid =
     (case Time xid of
        Panic \<Rightarrow> Panic
      | Return t \<Rightarrow> Return (Join [Sprintf_020d (sint t), ''99999999999999999999''] ''-''))"

text \<open>The pairs the codec is meant for: a timestamp that is not before the Unix epoch.
  Every \<open>uint64\<close> is a sequence number.\<close>

definition valid_pair :: "int64 \<Rightarrow> uint64 \<Rightarrow> bool" where
  "valid_pair ts seq \<longleftrightarrow> 0 \<le> sint ts"

text \<open>The order of pairs: by timestamp, then by sequence number.\<close>

definition pair_lt :: "int64 \<times> uint64 \<Rightarrow> int64 \<times> uint64 \<Rightarrow> bool" where
  "pair_lt a b \<longleftrightarrow>
     sint (fst a) < sint (fst b) \<or> (fst a = fst b \<and> uint (snd a) < uint (snd b))"

subsection \<open>Fixed-width decimal fields\<close>

text \<open>A field of exactly \<open>k\<close> digits, used to reason about the padded output.\<close>

fun fixed :: "nat \<Rightarrow> nat \<Rightarrow> string" where
  "fixed 0 n = []"
| "fixed (Suc k) n = fixed k (n div 10) @ [digit_char (n mod 10)]"

lemma digit_char_0: "digit_char 0 = CHR ''0''"
  unfolding digit_char_def by code_simp

lemma of_char_digit_char: "d < 10 \<Longrightarrow> of_char (digit_char d) = 48 + d"
  by (simp add: digit_char_def)

lemma digit_char_less: "d < 10 \<Longrightarrow> e < 10 \<Longrightarrow> digit_char d < digit_char e \<longleftrightarrow> d < e"
  by (simp add: less_char_def of_char_digit_char)

lemma digit_char_inj: "d < 10 \<Longrightarrow> e < 10 \<Longrightarrow> digit_char d = digit_char e \<longleftrightarrow> d = e"
  using digit_char_less [of d e] digit_char_less [of e d] by auto

lemma is_digit_digit_char: "d < 10 \<Longrightarrow> is_digit (digit_char d)"
  by (simp add: is_digit_def less_eq_char_def of_char_digit_char)

lemma digit_val_digit_char: "d < 10 \<Longrightarrow> digit_val (digit_char d) = d"
  by (simp add: digit_val_def of_char_digit_char)

lemma digit_char_not_dash: "d < 10 \<Longrightarrow> digit_char d \<noteq> CHR ''-''"
  using of_char_digit_char [of d] by (auto simp del: of_char_of)

lemma length_fixed [simp]: "length (fixed k n) = k"
  by (induction k arbitrary: n) auto

lemma fixed_zero: "fixed k 0 = replicate k CHR ''0''"
proof (induction k)
  case 0
  show ?case by simp
next
  case (Suc k)
  have "replicate k CHR ''0'' @ [CHR ''0''] = replicate (Suc k) CHR ''0''"
    by (simp add: replicate_append_same)
  with Suc show ?case by (simp add: digit_char_0)
qed

lemma length_digits: "n < 10 ^ k \<Longrightarrow> 0 < k \<Longrightarrow> length (digits n) \<le> k"
proof (induction k arbitrary: n)
  case 0
  then show ?case by simp
next
  case (Suc k)
  show ?case
  proof (cases "n < 10")
    case True
    then show ?thesis by (simp add: digits.simps [of n])
  next
    case False
    then have k: "0 < k" using Suc.prems by (cases k) auto
    have "n div 10 < 10 ^ k" using Suc.prems by (simp add: less_mult_imp_div_less mult.commute)
    then have "length (digits (n div 10)) \<le> k" using Suc.IH k by blast
    with False show ?thesis by (simp add: digits.simps [of n])
  qed
qed

lemma zero_pad_digits: "n < 10 ^ k \<Longrightarrow> 0 < k \<Longrightarrow> zero_pad k (digits n) = fixed k n"
proof (induction k arbitrary: n)
  case 0
  then show ?case by simp
next
  case (Suc k)
  show ?case
  proof (cases "n < 10")
    case True
    then show ?thesis
      by (simp add: digits.simps [of n] zero_pad_def fixed_zero)
  next
    case False
    then have k: "0 < k" using Suc.prems by (cases k) auto
    have b: "n div 10 < 10 ^ k" using Suc.prems by (simp add: less_mult_imp_div_less mult.commute)
    have l: "length (digits (n div 10)) \<le> k" using length_digits [OF b k] .
    have "zero_pad k (digits (n div 10)) = fixed k (n div 10)" using Suc.IH b k by blast
    with False l show ?thesis
      by (simp add: digits.simps [of n] zero_pad_def Suc_diff_le)
  qed
qed

lemma fixed_bound_digits: "c \<in> set (fixed k n) \<Longrightarrow> \<exists>d<10. c = digit_char d"
proof (induction k arbitrary: n)
  case 0
  then show ?case by simp
next
  case (Suc k)
  from Suc.prems consider "c \<in> set (fixed k (n div 10))" | "c = digit_char (n mod 10)"
    by auto
  then show ?case
  proof cases
    case 1
    then show ?thesis by (rule Suc.IH)
  next
    case 2
    have "n mod 10 < 10" by simp
    with 2 show ?thesis by blast
  qed
qed

lemma append_less_same_length:
  "length xs = length ys \<Longrightarrow> xs @ us < ys @ vs \<longleftrightarrow> xs < ys \<or> (xs = ys \<and> us < vs)"
  for xs ys :: "'a::linorder list"
  by (induction xs ys rule: list_induct2) auto

lemma divmod10_eq: "(n::nat) div 10 = m div 10 \<and> n mod 10 = m mod 10 \<longleftrightarrow> n = m"
  by (metis div_mult_mod_eq)

lemma base10_less:
  "r < 10 \<Longrightarrow> r' < 10 \<Longrightarrow>
   (q < q' \<or> (q = q' \<and> r < r')) \<longleftrightarrow> 10 * q + r < 10 * q' + (r'::nat)"
  by linarith

lemma divmod10_less:
  "(n::nat) div 10 < m div 10 \<or> (n div 10 = m div 10 \<and> n mod 10 < m mod 10) \<longleftrightarrow> n < m"
  using base10_less [of "n mod 10" "m mod 10" "n div 10" "m div 10"] by simp

lemma div10_bound: "(n::nat) < 10 ^ Suc k \<Longrightarrow> n div 10 < 10 ^ k"
  by (simp add: less_mult_imp_div_less mult.commute)

lemma fixed_inj: "n < 10 ^ k \<Longrightarrow> m < 10 ^ k \<Longrightarrow> fixed k n = fixed k m \<longleftrightarrow> n = m"
proof (induction k arbitrary: n m)
  case 0
  then show ?case by simp
next
  case (Suc k)
  have b: "n div 10 < 10 ^ k" "m div 10 < 10 ^ k"
    using Suc.prems by (simp_all only: div10_bound)
  have "fixed (Suc k) n = fixed (Suc k) m \<longleftrightarrow> n div 10 = m div 10 \<and> n mod 10 = m mod 10"
    using Suc.IH [OF b] by (simp add: digit_char_inj)
  then show ?case by (simp only: divmod10_eq)
qed

lemma fixed_less: "n < 10 ^ k \<Longrightarrow> m < 10 ^ k \<Longrightarrow> fixed k n < fixed k m \<longleftrightarrow> n < m"
proof (induction k arbitrary: n m)
  case 0
  then show ?case by simp
next
  case (Suc k)
  have b: "n div 10 < 10 ^ k" "m div 10 < 10 ^ k"
    using Suc.prems by (simp_all only: div10_bound)
  have "fixed (Suc k) n < fixed (Suc k) m \<longleftrightarrow>
        n div 10 < m div 10 \<or> (n div 10 = m div 10 \<and> n mod 10 < m mod 10)"
    using Suc.IH [OF b] fixed_inj [OF b]
    by (simp add: append_less_same_length digit_char_less)
  then show ?case by (simp only: divmod10_less)
qed

lemma parseUint_loop_append:
  "parseUint_loop n (xs @ ys) =
     (case parseUint_loop n xs of (m, None) \<Rightarrow> parseUint_loop m ys | r \<Rightarrow> r)"
  by (induction xs arbitrary: n) (auto simp: Let_def)

lemma cutoff_step: "10 * x + r \<le> maxUint64 \<Longrightarrow> x < maxUint64 div 10 + 1"
  unfolding maxUint64_def by simp

lemma parseUint_loop_fixed:
  "n < 10 ^ k \<Longrightarrow> a * 10 ^ k + n \<le> maxUint64 \<Longrightarrow>
   parseUint_loop a (fixed k n) = (a * 10 ^ k + n, None)"
proof (induction k arbitrary: n)
  case 0
  then show ?case by simp
next
  case (Suc k)
  have b: "n div 10 < 10 ^ k"
    using Suc.prems(1) by (simp only: div10_bound)
  define x where "x = a * 10 ^ k + n div 10"
  have n: "10 * (n div 10) + n mod 10 = n" by simp
  have e: "a * 10 ^ Suc k + n = 10 * x + n mod 10"
    unfolding x_def using n by (simp add: algebra_simps)
  have le: "10 * x + n mod 10 \<le> maxUint64"
    using Suc.prems(2) e by simp
  then have c: "x \<le> maxUint64" by simp
  have d: "x < maxUint64 div 10 + 1"
    using le by (rule cutoff_step)
  have "parseUint_loop a (fixed k (n div 10)) = (x, None)"
    unfolding x_def using Suc.IH [OF b] c [unfolded x_def] .
  moreover have "parseUint_loop x [digit_char (n mod 10)] = (10 * x + n mod 10, None)"
    using d le by (simp add: is_digit_digit_char digit_val_digit_char Let_def mult.commute)
  ultimately show ?case
    by (simp add: parseUint_loop_append e del: power_Suc)
qed

lemma Sprintf_nonneg: "0 \<le> x \<Longrightarrow> x < 10 ^ 20 \<Longrightarrow> Sprintf_020d x = fixed 20 (nat x)"
proof -
  assume a: "0 \<le> x" "x < 10 ^ 20"
  then have "nat x < 10 ^ 20" by (simp add: nat_less_iff)
  then have "zero_pad 20 (digits (nat x)) = fixed 20 (nat x)"
    by (rule zero_pad_digits) simp
  with a show ?thesis by (simp add: Sprintf_020d_def)
qed

lemma Sprintf_neg:
  "x < 0 \<Longrightarrow> - x < 10 ^ 19 \<Longrightarrow> Sprintf_020d x = CHR ''-'' # fixed 19 (nat (- x))"
proof -
  assume a: "x < 0" "- x < 10 ^ 19"
  then have "nat (- x) < 10 ^ 19" by (simp add: nat_less_iff)
  then have "zero_pad 19 (digits (nat (- x))) = fixed 19 (nat (- x))"
    by (rule zero_pad_digits) simp
  with a show ?thesis by (simp add: Sprintf_020d_def)
qed

lemma sint64_bounds: "- (2 ^ 63) \<le> sint (t::int64)" "sint (t::int64) < 2 ^ 63"
  using sint_ge [of t] sint_lt [of t] by simp_all

lemma uint64_bound: "uint (s::uint64) < 2 ^ 64"
  using uint_bounded [of s] by simp

lemma unat64_bound: "unat (s::uint64) < 2 ^ 64"
  using unsigned_less [of s, where ?'a = nat] by simp

lemma Sprintf_time: "0 \<le> sint (t::int64) \<Longrightarrow> Sprintf_020d (sint t) = fixed 20 (nat (sint t))"
  using sint64_bounds(2) [of t] by (intro Sprintf_nonneg) simp_all

lemma Sprintf_seq: "Sprintf_020d (uint (s::uint64)) = fixed 20 (unat s)"
  using uint64_bound [of s] by (simp add: Sprintf_nonneg)

lemma length_Sprintf_int64: "length (Sprintf_020d (sint (t::int64))) = 20"
proof (cases "0 \<le> sint t")
  case True
  then show ?thesis by (simp add: Sprintf_time)
next
  case False
  then have "sint t < 0" by simp
  moreover have "- sint t < 10 ^ 19" using sint64_bounds(1) [of t] by simp
  ultimately show ?thesis by (simp add: Sprintf_neg)
qed

lemma NewXID_valid:
  "0 \<le> sint t \<Longrightarrow> NewXID t s = fixed 20 (nat (sint t)) @ CHR ''-'' # fixed 20 (unat s)"
  by (simp add: NewXID_def Sprintf_time Sprintf_seq)

lemma length_NewXID: "length (NewXID t s) = 41"
  by (simp add: NewXID_def length_Sprintf_int64 Sprintf_seq)

lemma Split_no_sep: "sep \<notin> set a \<Longrightarrow> Split a sep = [a]"
  by (induction a) (auto simp: Let_def)

lemma Split_at_sep: "sep \<notin> set a \<Longrightarrow> Split (a @ sep # b) sep = a # Split b sep"
  by (induction a) (auto simp: Let_def)

lemma dash_notin_fixed: "CHR ''-'' \<notin> set (fixed k n)"
proof
  assume "CHR ''-'' \<in> set (fixed k n)"
  then obtain d where "d < 10" "CHR ''-'' = digit_char d"
    using fixed_bound_digits by blast
  then show False using digit_char_not_dash [of d] by simp
qed

lemma Split_NewXID:
  "0 \<le> sint t \<Longrightarrow> Split (NewXID t s) CHR ''-'' = [fixed 20 (nat (sint t)), fixed 20 (unat s)]"
  by (simp add: NewXID_valid Split_at_sep Split_no_sep dash_notin_fixed)

lemma fixed_nonempty: "0 < k \<Longrightarrow> fixed k n \<noteq> []"
  by (cases k) auto

lemma ParseUint_fixed: "0 < k \<Longrightarrow> n < 10 ^ k \<Longrightarrow> n \<le> maxUint64 \<Longrightarrow> ParseUint (fixed k n) = (n, None)"
proof -
  assume k: "0 < k" and n: "n < 10 ^ k" "n \<le> maxUint64"
  from k have "fixed k n \<noteq> []" by (cases k) auto
  moreover have "parseUint_loop 0 (fixed k n) = (0 * 10 ^ k + n, None)"
    using n by (intro parseUint_loop_fixed) simp_all
  ultimately show ?thesis by (simp add: ParseUint_def)
qed

lemma hd_fixed_digit: "0 < k \<Longrightarrow> \<exists>d<10. hd (fixed k n) = digit_char d"
proof -
  assume "0 < k"
  then have "fixed k n \<noteq> []" by (cases k) auto
  then have "hd (fixed k n) \<in> set (fixed k n)" by simp
  then show ?thesis by (rule fixed_bound_digits)
qed

lemma digit_char_not_plus: "d < 10 \<Longrightarrow> digit_char d \<noteq> CHR ''+''"
  using of_char_digit_char [of d] by (auto simp del: of_char_of)

lemma ParseInt_fixed:
  assumes "n < 2 ^ 63"
  shows "ParseInt (fixed 20 n) = (int n, None)"
proof -
  obtain d where d: "d < 10" "hd (fixed 20 n) = digit_char d"
    using hd_fixed_digit [of 20 n] by auto
  have ne: "fixed 20 n \<noteq> []" by (rule fixed_nonempty) simp
  have "n < 10 ^ 20" using assms by simp
  moreover have "n \<le> maxUint64" using assms by (simp add: maxUint64_def)
  ultimately have p: "ParseUint (fixed 20 n) = (n, None)"
    by (intro ParseUint_fixed) simp_all
  show ?thesis
    using ne d assms p
    by (simp add: ParseInt_def Let_def digit_char_not_dash digit_char_not_plus)
qed

lemma Time_NewXID: "0 \<le> sint t \<Longrightarrow> Time (NewXID t s) = Return t"
  using sint64_bounds(2) [of t]
  by (simp add: Time_def Split_NewXID index_def ParseInt_fixed nat_less_iff)

lemma Seq_NewXID: "0 \<le> sint t \<Longrightarrow> Seq (NewXID t s) = Return s"
proof -
  assume t: "0 \<le> sint t"
  have "unat s < 2 ^ 64" by (rule unat64_bound)
  then have "unat s < 10 ^ 20" "unat s \<le> maxUint64" by (simp_all add: maxUint64_def)
  then have "ParseUint (fixed 20 (unat s)) = (unat s, None)"
    by (intro ParseUint_fixed) simp_all
  with t show ?thesis
    by (simp add: Seq_def Split_NewXID index_def)
qed

lemma NewXID_less:
  assumes "0 \<le> sint ta" "0 \<le> sint tb"
  shows "NewXID ta sa < NewXID tb sb \<longleftrightarrow> pair_lt (ta, sa) (tb, sb)"
proof -
  have a: "nat (sint ta) < 10 ^ 20" "nat (sint tb) < 10 ^ 20"
    using sint64_bounds(2) [of ta] sint64_bounds(2) [of tb] by (simp_all add: nat_less_iff)
  have b: "unat sa < 10 ^ 20" "unat sb < 10 ^ 20"
    using unat64_bound [of sa] unat64_bound [of sb] by simp_all
  have t: "nat (sint ta) = nat (sint tb) \<longleftrightarrow> ta = tb"
    using assms word_eq_iff_signed [of ta tb, where ?'a = int] by auto
  have "NewXID ta sa < NewXID tb sb \<longleftrightarrow>
        nat (sint ta) < nat (sint tb) \<or> (nat (sint ta) = nat (sint tb) \<and> unat sa < unat sb)"
    by (simp add: NewXID_valid assms append_less_same_length fixed_less [OF a] fixed_inj [OF a]
        fixed_less [OF b])
  also have "\<dots> \<longleftrightarrow> pair_lt (ta, sa) (tb, sb)"
  proof -
    have 1: "nat (sint ta) < nat (sint tb) \<longleftrightarrow> sint ta < sint tb"
      using assms by linarith
    have 2: "unat sa < unat sb \<longleftrightarrow> uint sa < uint sb"
      using word_less_nat_alt [of sa sb] word_less_alt [of sa sb] by simp
    show ?thesis
      unfolding pair_lt_def fst_conv snd_conv 1 2 t ..
  qed
  finally show ?thesis .
qed

lemma replicate_num: "replicate (numeral k) x = x # replicate (pred_numeral k) x"
  by (simp add: numeral_eq_Suc)

lemma digit_char_numerals:
  "digit_char 0 = CHR ''0''" "digit_char (Suc 0) = CHR ''1''" "digit_char 2 = CHR ''2''"
  "digit_char 3 = CHR ''3''" "digit_char 4 = CHR ''4''" "digit_char 5 = CHR ''5''"
  "digit_char 6 = CHR ''6''" "digit_char 7 = CHR ''7''" "digit_char 8 = CHR ''8''"
  "digit_char 9 = CHR ''9''"
  unfolding digit_char_def by code_simp+

lemmas xid_eval = replicate_num NewXID_def Sprintf_020d_def zero_pad_def digits.simps
  digit_char_numerals

lemmas parse_eval = Time_def Seq_def Next_def index_def ParseInt_def ParseUint_def Let_def
  is_digit_def digit_val_def maxUint64_def

section \<open>The keyed store\<close>

text \<open>
  The store is the DynamoDB table behind the client: items addressed by a partition key
  and a sort key, each item a map from attribute names to values. The table is an
  association list read with \<open>map_of\<close>, so that a partition can be enumerated. The
  stream code stores strings and integers only.
\<close>

datatype av = StrV string | NumV int

type_synonym attrs = "string \<Rightarrow> av option"
type_synonym pkey = "string \<times> string"
type_synonym table = "(pkey \<times> attrs) list"

datatype err =
    ConditionFailed
  | StoreError string
  | ErrXGroupNotInitialized
  | TooMuchContention
  | CouldNotLoadStreamItem "err option"

text \<open>Modelled from the spec: \<open>conditionFailureError\<close> is not under src/. The spec calls
  it the dedicated predicate that recognises the store's condition-not-met signal; it is
  false of \<open>nil\<close>.\<close>

definition conditionFailureError :: "err option \<Rightarrow> bool" where
  "conditionFailureError e \<longleftrightarrow> e = Some ConditionFailed"

text \<open>Modelled from the spec: the attribute names of the client's table and the
  constants \<open>vk\<close> and \<open>emptySK\<close> are declared outside src/. The table of the tests has
  the key attributes \<open>pk\<close> and \<open>sk\<close>; the value attribute is called \<open>val\<close>.\<close>

definition partitionKey :: string where "partitionKey = ''pk''"
definition sortKey :: string where "sortKey = ''sk''"
definition vk :: string where "vk = ''val''"
definition emptySK :: string where "emptySK = ''/''"

definition consumerKey :: string where "consumerKey = ''cnk''"
definition lastDeliveryTimestampKey :: string where "lastDeliveryTimestampKey = ''ldk''"
definition deliveryCountKey :: string where "deliveryCountKey = ''dck''"

subsection \<open>Conditions and updates\<close>

text \<open>Modelled from the spec: the expression builder is not under src/. A condition is
  one of the comparisons the stream code asks for (\<open>#a < :v\<close>, \<open>#a <= :v\<close>, \<open>#a = :v\<close>,
  \<open>attribute_exists\<close>, \<open>attribute_not_exists\<close>); a list of conditions is their
  conjunction. A comparison with an absent attribute, or between a string and a number,
  is false.\<close>

datatype cond =
    CondLT string av
  | CondLE string av
  | CondEQ string av
  | CondExists string
  | CondNotExists string

fun av_less :: "av \<Rightarrow> av \<Rightarrow> bool" where
  "av_less (StrV a) (StrV b) = (a < b)"
| "av_less (NumV a) (NumV b) = (a < b)"
| "av_less (StrV a) (NumV b) = False"
| "av_less (NumV a) (StrV b) = False"

fun av_le :: "av \<Rightarrow> av \<Rightarrow> bool" where
  "av_le (StrV a) (StrV b) = (a \<le> b)"
| "av_le (NumV a) (NumV b) = (a \<le> b)"
| "av_le (StrV a) (NumV b) = False"
| "av_le (NumV a) (StrV b) = False"

text \<open>The attributes of an item as a condition sees them: the key attributes belong to
  every item that exists.\<close>

definition attr_of :: "pkey \<Rightarrow> attrs option \<Rightarrow> string \<Rightarrow> av option" where
  "attr_of k it a =
     (case it of
        None \<Rightarrow> None
      | Some m \<Rightarrow>
          if a = partitionKey then Some (StrV (fst k))
          else if a = sortKey then Some (StrV (snd k))
          else m a)"

fun holds :: "pkey \<Rightarrow> attrs option \<Rightarrow> cond \<Rightarrow> bool" where
  "holds k it (CondLT a v) = (case attr_of k it a of None \<Rightarrow> False | Some x \<Rightarrow> av_less x v)"
| "holds k it (CondLE a v) = (case attr_of k it a of None \<Rightarrow> False | Some x \<Rightarrow> av_le x v)"
| "holds k it (CondEQ a v) = (attr_of k it a = Some v)"
| "holds k it (CondExists a) = (attr_of k it a \<noteq> None)"
| "holds k it (CondNotExists a) = (attr_of k it a = None)"

text \<open>An update expression: \<open>SET #a = :v\<close> and \<open>ADD #a :d\<close>. \<open>ADD\<close> starts an absent
  attribute at the delta and is refused on a string.\<close>

datatype upd = SET string av | ADD string int

fun apply_upd :: "upd \<Rightarrow> attrs \<Rightarrow> attrs option" where
  "apply_upd (SET a v) m = Some (m(a \<mapsto> v))"
| "apply_upd (ADD a d) m =
     (case m a of
        None \<Rightarrow> Some (m(a \<mapsto> NumV d))
      | Some (NumV n) \<Rightarrow> Some (m(a \<mapsto> NumV (n + d)))
      | Some (StrV x) \<Rightarrow> None)"

fun apply_upds :: "upd list \<Rightarrow> attrs \<Rightarrow> attrs option" where
  "apply_upds [] m = Some m"
| "apply_upds (u # us) m =
     (case apply_upd u m of None \<Rightarrow> None | Some m' \<Rightarrow> apply_upds us m')"

text \<open>An update creates the item when it does not exist.\<close>

definition item_or_empty :: "table \<Rightarrow> pkey \<Rightarrow> attrs" where
  "item_or_empty t k = (case map_of t k of None \<Rightarrow> Map.empty | Some m \<Rightarrow> m)"

definition write_upds :: "table \<Rightarrow> pkey \<Rightarrow> upd list \<Rightarrow> err + table" where
  "write_upds t k us =
     (case apply_upds us (item_or_empty t k) of
        None \<Rightarrow> Inl (StoreError ''ValidationException'')
      | Some m \<Rightarrow> Inr (AList.update k m t))"

definition update_item :: "table \<Rightarrow> pkey \<Rightarrow> cond list \<Rightarrow> upd list \<Rightarrow> err + table" where
  "update_item t k cs us =
     (if \<not> list_all (holds k (map_of t k)) cs then Inl ConditionFailed
      else write_upds t k us)"

subsection \<open>Transactions\<close>

text \<open>\<open>TransactWriteItems\<close>: no two actions on one item; every condition is checked on
  the table as it is before the transaction; then all writes happen, or none.\<close>

datatype action = Put pkey attrs | Update pkey "cond list" "upd list"

fun action_key :: "action \<Rightarrow> pkey" where
  "action_key (Put k m) = k"
| "action_key (Update k cs us) = k"

fun action_ok :: "table \<Rightarrow> action \<Rightarrow> bool" where
  "action_ok t (Put k m) = True"
| "action_ok t (Update k cs us) = list_all (holds k (map_of t k)) cs"

fun apply_action :: "action \<Rightarrow> table \<Rightarrow> err + table" where
  "apply_action (Put k m) t = Inr (AList.update k m t)"
| "apply_action (Update k cs us) t = write_upds t k us"

fun apply_actions :: "action list \<Rightarrow> table \<Rightarrow> err + table" where
  "apply_actions [] t = Inr t"
| "apply_actions (a # as) t =
     (case apply_action a t of Inl e \<Rightarrow> Inl e | Inr t' \<Rightarrow> apply_actions as t')"

definition transact :: "table \<Rightarrow> action list \<Rightarrow> err + table" where
  "transact t as =
     (if \<not> distinct (map action_key as) then Inl (StoreError ''ValidationException'')
      else if \<not> list_all (action_ok t) as then Inl ConditionFailed
      else apply_actions as t)"

subsection \<open>Range queries\<close>

text \<open>
  \<open>Query\<close> with the key condition \<open>pk = :pk AND sk BETWEEN :start AND :stop\<close>. The store
  refuses an upper bound below the lower bound and a limit below 1. It reads the sort
  keys of the partition in order, after the exclusive start key, and stops after
  \<open>Limit\<close> items or when the page is full; it then returns the key it stopped at. A
  filter drops items from the page after they have been read.
\<close>

definition part_keys :: "table \<Rightarrow> string \<Rightarrow> string \<Rightarrow> string \<Rightarrow> string list" where
  "part_keys t pk lo hi =
     sort (remdups (map snd (filter (\<lambda>k. fst k = pk \<and> lo \<le> snd k \<and> snd k \<le> hi) (map fst t))))"

fun after :: "bool \<Rightarrow> string option \<Rightarrow> string \<Rightarrow> bool" where
  "after forward None s = True"
| "after True (Some k) s = (k < s)"
| "after False (Some k) s = (s < k)"

definition scan_from :: "bool \<Rightarrow> string option \<Rightarrow> string list \<Rightarrow> string list" where
  "scan_from forward esk ks = filter (after forward esk) (if forward then ks else rev ks)"

definition page_items :: "table \<Rightarrow> string \<Rightarrow> (attrs \<Rightarrow> bool) \<Rightarrow> string list \<Rightarrow> (string \<times> attrs) list" where
  "page_items t pk flt seen =
     List.map_filter
       (\<lambda>sk. case map_of t (pk, sk) of
                None \<Rightarrow> None
              | Some m \<Rightarrow> if flt m then Some (sk, m) else None) seen"

definition query_page ::
  "table \<Rightarrow> nat \<Rightarrow> string \<Rightarrow> string \<Rightarrow> string \<Rightarrow> bool \<Rightarrow> int option \<Rightarrow> (attrs \<Rightarrow> bool) \<Rightarrow>
   string option \<Rightarrow> err + ((string \<times> attrs) list \<times> string option)" where
  "query_page t pg pk lo hi forward lim flt esk =
     (if hi < lo then Inl (StoreError ''ValidationException'')
      else if (case lim of None \<Rightarrow> False | Some l \<Rightarrow> l < 1)
        then Inl (StoreError ''ValidationException'')
      else
        let rest = scan_from forward esk (part_keys t pk lo hi);
            n = (case lim of None \<Rightarrow> max 1 pg | Some l \<Rightarrow> min (nat l) (max 1 pg));
            seen = take n rest;
            more = (n < length rest \<or> lim = Some (int (length seen)))
        in Inr (page_items t pk flt seen, if more then Some (last seen) else None))"

subsection \<open>The world of one client\<close>

text \<open>
  Every call of the client is a sequence of requests to the store. Between two requests
  other clients may write, and a request may fail before it reaches the store. The
  schedule \<open>env\<close> says what happens at each of the next requests: \<open>Fault\<close> makes the
  request fail and leaves the table alone, \<open>Meanwhile f\<close> lets other clients change the
  table by \<open>f\<close> first. When the schedule is empty the client is alone and nothing fails.
  \<open>now\<close> is the reading of \<open>time.Now().Unix()\<close>; \<open>page\<close> is the number of items that
  fit a page of a query (at least one does).
\<close>

datatype event = Fault string | Meanwhile "table \<Rightarrow> table"

record world =
  tbl :: table
  env :: "event list"
  now :: int64
  page :: nat

definition arrive :: "world \<Rightarrow> (err + table) \<times> world" where
  "arrive w =
     (case env w of
        [] \<Rightarrow> (Inr (tbl w), w)
      | Fault e # es \<Rightarrow> (Inl (StoreError e), w\<lparr>env := es\<rparr>)
      | Meanwhile f # es \<Rightarrow> (Inr (f (tbl w)), w\<lparr>tbl := f (tbl w), env := es\<rparr>))"

definition GetItem :: "world \<Rightarrow> pkey \<Rightarrow> (err + attrs option) \<times> world" where
  "GetItem w k =
     (case arrive w of
        (Inl e, w') \<Rightarrow> (Inl e, w')
      | (Inr t, w') \<Rightarrow> (Inr (map_of t k), w'))"

text \<open>\<open>UpdateItem\<close> answers with the attributes before and after the update.\<close>

definition UpdateItem ::
  "world \<Rightarrow> pkey \<Rightarrow> cond list \<Rightarrow> upd list \<Rightarrow> (err + (attrs option \<times> attrs)) \<times> world" where
  "UpdateItem w k cs us =
     (case arrive w of
        (Inl e, w') \<Rightarrow> (Inl e, w')
      | (Inr t, w') \<Rightarrow>
          (case update_item t k cs us of
             Inl e \<Rightarrow> (Inl e, w')
           | Inr t' \<Rightarrow> (Inr (map_of t k, item_or_empty t' k), w'\<lparr>tbl := t'\<rparr>)))"

text \<open>\<open>DeleteItem\<close> with \<open>ReturnValues: ALL_OLD\<close>: the attributes of the deleted item, if
  there was one.\<close>

definition DeleteItem :: "world \<Rightarrow> pkey \<Rightarrow> (err + attrs option) \<times> world" where
  "DeleteItem w k =
     (case arrive w of
        (Inl e, w') \<Rightarrow> (Inl e, w')
      | (Inr t, w') \<Rightarrow> (Inr (map_of t k), w'\<lparr>tbl := AList.delete k t\<rparr>))"

definition TransactWriteItems :: "world \<Rightarrow> action list \<Rightarrow> err option \<times> world" where
  "TransactWriteItems w as =
     (case arrive w of
        (Inl e, w') \<Rightarrow> (Some e, w')
      | (Inr t, w') \<Rightarrow>
          (case transact t as of
             Inl e \<Rightarrow> (Some e, w')
           | Inr t' \<Rightarrow> (None, w'\<lparr>tbl := t'\<rparr>)))"

definition Query ::
  "world \<Rightarrow> string \<Rightarrow> string \<Rightarrow> string \<Rightarrow> bool \<Rightarrow> int option \<Rightarrow> (attrs \<Rightarrow> bool) \<Rightarrow>
   string option \<Rightarrow> (err + ((string \<times> attrs) list \<times> string option)) \<times> world" where
  "Query w pk lo hi forward lim flt esk =
     (case arrive w of
        (Inl e, w') \<Rightarrow> (Inl e, w')
      | (Inr t, w') \<Rightarrow> (query_page t (page w') pk lo hi forward lim flt esk, w'))"

subsection \<open>Facts about the store that the loops of the client rest on\<close>

lemma arrive_quiet: "env w = [] \<Longrightarrow> arrive w = (Inr (tbl w), w)"
  by (simp add: arrive_def)

lemma arrive_env: "env (snd (arrive w)) = tl (env w)"
  by (simp add: arrive_def split: list.split event.split)

lemma arrive_now: "now (snd (arrive w)) = now w" and arrive_page: "page (snd (arrive w)) = page w"
  by (simp_all add: arrive_def split: list.split event.split)

lemma arrive_tbl: "arrive w = (Inr t, w') \<Longrightarrow> tbl w' = t"
  by (auto simp: arrive_def split: list.splits event.splits)

lemma arrive_busy: "env w \<noteq> [] \<Longrightarrow> length (env (snd (arrive w))) < length (env w)"
  by (simp add: arrive_env)

lemma after_trans: "after forward esk k \<Longrightarrow> after forward (Some k) s \<Longrightarrow> after forward esk s"
  by (cases esk; cases forward) auto

lemma after_irrefl: "\<not> after forward (Some k) k"
  by (cases forward) auto

lemma scan_from_shrinks:
  assumes "k \<in> set (scan_from forward esk ks)"
  shows "length (scan_from forward (Some k) ks) < length (scan_from forward esk ks)"
proof -
  let ?xs = "if forward then ks else rev ks"
  from assms have a: "after forward esk k" and m: "k \<in> set ?xs"
    by (auto simp: scan_from_def split: if_splits)
  have "filter (after forward (Some k)) ?xs = filter (after forward (Some k)) (filter (after forward esk) ?xs)"
    using a by (auto simp: filter_filter after_trans intro!: filter_cong)
  moreover have "length (filter (after forward (Some k)) (filter (after forward esk) ?xs))
        < length (filter (after forward esk) ?xs)"
    using a m after_irrefl by (intro length_filter_less [of k]) auto
  ultimately show ?thesis by (simp add: scan_from_def)
qed

lemma query_page_more:
  assumes "query_page t pg pk lo hi forward lim flt esk = Inr (items, Some k)"
  shows "k \<in> set (scan_from forward esk (part_keys t pk lo hi))"
proof -
  let ?rest = "scan_from forward esk (part_keys t pk lo hi)"
  let ?n = "case lim of None \<Rightarrow> max 1 pg | Some l \<Rightarrow> min (nat l) (max 1 pg)"
  from assms have l: "\<not> (case lim of None \<Rightarrow> False | Some l \<Rightarrow> l < 1)"
    by (auto simp: query_page_def split: if_splits)
  then have n: "0 < ?n" by (cases lim) auto
  from assms have more: "?n < length ?rest \<or> lim = Some (int (length (take ?n ?rest)))"
    and k: "k = last (take ?n ?rest)"
    by (auto simp: query_page_def Let_def split: if_splits)
  have "?rest \<noteq> []"
  proof
    assume e: "?rest = []"
    with more have "lim = Some 0" by simp
    with l show False by simp
  qed
  with n have "take ?n ?rest \<noteq> []" by simp
  then have "last (take ?n ?rest) \<in> set (take ?n ?rest)" by (rule last_in_set)
  then show ?thesis unfolding k by (rule in_set_takeD)
qed

lemma Query_progress:
  assumes "Query w pk lo hi forward lim flt esk = (Inr (items, Some k), w')"
  shows "(env w \<noteq> [] \<and> length (env w') < length (env w)) \<or>
         (env w = [] \<and> w' = w \<and>
          length (scan_from forward (Some k) (part_keys (tbl w) pk lo hi))
            < length (scan_from forward esk (part_keys (tbl w) pk lo hi)))"
proof (cases "env w = []")
  case True
  with assms have "w' = w" and "query_page (tbl w) (page w) pk lo hi forward lim flt esk = Inr (items, Some k)"
    by (auto simp: Query_def arrive_quiet)
  then show ?thesis using True query_page_more scan_from_shrinks by blast
next
  case False
  from assms have "w' = snd (arrive w)"
    by (auto simp: Query_def split: prod.splits sum.splits)
  with False show ?thesis using arrive_busy by blast
qed

section \<open>The stream operations\<close>

text \<open>Modelled from the spec: \<open>ReturnValue\<close> and its methods are not under src/. The
  spec asks of the value encoding that it round-trips strings and integers; a value of
  the other kind, or none, reads as the zero value.\<close>

definition ReturnValue_String :: "av option \<Rightarrow> string" where
  "ReturnValue_String v = (case v of Some (StrV s) \<Rightarrow> s | _ \<Rightarrow> [])"

definition ReturnValue_Int :: "av option \<Rightarrow> int64" where
  "ReturnValue_Int v = (case v of Some (NumV n) \<Rightarrow> word_of_int n | _ \<Rightarrow> 0)"

record StreamItem =
  ID :: XID
  Fields :: "string \<Rightarrow> av option"

definition xSequenceKey :: "string \<Rightarrow> pkey" where
  "xSequenceKey key = (Join [''_redimo'', ''seq'', key] ''/'', ''seq'')"

definition xGroupKey :: "string \<Rightarrow> string \<Rightarrow> string" where
  "xGroupKey key grp = Join [''_redimo'', key, grp] ''/''"

definition xGroupCursorKey :: "string \<Rightarrow> string \<Rightarrow> pkey" where
  "xGroupCursorKey key grp = (xGroupKey key grp, ''_redimo/cursor'')"

text \<open>\<open>toAV\<close>: a field \<open>k\<close> is stored as the attribute \<open>_k\<close>. The key attributes are the
  key of the item in the table.\<close>

definition toAV :: "StreamItem \<Rightarrow> attrs" where
  "toAV i = (\<lambda>a. case a of [] \<Rightarrow> None | c # k \<Rightarrow> if c = CHR ''_'' then Fields i k else None)"

definition putAction :: "StreamItem \<Rightarrow> string \<Rightarrow> action" where
  "putAction i key = Put (key, ID i) (toAV i)"

definition parseStreamItem :: "string \<times> attrs \<Rightarrow> StreamItem" where
  "parseStreamItem item = \<lparr>ID = fst item, Fields = (\<lambda>k. snd item (CHR ''_'' # k))\<rparr>"

definition sequenceUpdateAction :: "XID \<Rightarrow> string \<Rightarrow> action" where
  "sequenceUpdateAction xid key =
     Update (xSequenceKey key) [CondLT vk (StrV xid)] [SET vk (StrV xid)]"

definition xInitAction :: "string \<Rightarrow> action" where
  "xInitAction key = Update (xSequenceKey key) [CondNotExists vk] [SET vk (StrV XStart)]"

definition xInit :: "world \<Rightarrow> string \<Rightarrow> err option \<times> world" where
  "xInit w key =
     (case TransactWriteItems w [xInitAction key] of
        (e, w') \<Rightarrow> (if conditionFailureError e then None else e, w'))"

text \<open>\<open>INCR\<close> (strings.go): an atomic add on the counter, answering the new value.\<close>

definition incr :: "world \<Rightarrow> string \<Rightarrow> int \<Rightarrow> (err + av option) \<times> world" where
  "incr w key delta =
     (case UpdateItem w (key, emptySK) [] [ADD vk delta] of
        (Inl e, w') \<Rightarrow> (Inl e, w')
      | (Inr r, w') \<Rightarrow> (Inr (snd r vk), w'))"

definition INCRBY :: "world \<Rightarrow> string \<Rightarrow> int64 \<Rightarrow> (int64 \<times> err option) \<times> world" where
  "INCRBY w key delta =
     (case incr w key (sint delta) of
        (Inl e, w') \<Rightarrow> ((0, Some e), w')
      | (Inr rv, w') \<Rightarrow> ((ReturnValue_Int rv, None), w'))"

definition INCR :: "world \<Rightarrow> string \<Rightarrow> (int64 \<times> err option) \<times> world" where
  "INCR w key = INCRBY w key 1"

subsection \<open>XADD\<close>

function XADD_loop ::
  "world \<Rightarrow> string \<Rightarrow> XID \<Rightarrow> (string \<Rightarrow> av option) \<Rightarrow> nat \<Rightarrow> (XID \<times> err option) \<times> world" where
  "XADD_loop w key xid flds retryCount =
     (if retryCount < 2 then
        (case (if xid = XAutoID
               then (case INCR w (Join [''_redimo'', ''xcount'', key] ''/'') of
                       ((n, Some e), w1) \<Rightarrow> (Inl e, w1)
                     | ((n, None), w1) \<Rightarrow> (Inr (NewXID (now w) n), w1))
               else (Inr xid, w)) of
           (Inl e, w1) \<Rightarrow> ((xid, Some e), w1)
         | (Inr xid', w1) \<Rightarrow>
             (case TransactWriteItems w1
                     [putAction \<lparr>ID = xid', Fields = flds\<rparr> key, sequenceUpdateAction xid' key] of
                (None, w2) \<Rightarrow> ((xid', None), w2)
              | (Some e, w2) \<Rightarrow>
                  if conditionFailureError (Some e) \<and> retryCount = 0
                  then (case xInit w2 key of
                          (Some e', w3) \<Rightarrow> (([], Some e'), w3)
                        | (None, w3) \<Rightarrow> XADD_loop w3 key xid' flds (retryCount + 1))
                  else (([], Some e), w2)))
      else ((xid, None), w))"
  by pat_completeness auto
termination
  by (relation "measure (\<lambda>(w, key, xid, flds, retryCount). 2 - retryCount)") auto

declare XADD_loop.simps [simp del]

definition XADD :: "world \<Rightarrow> string \<Rightarrow> XID \<Rightarrow> (string \<Rightarrow> av option) \<Rightarrow> (XID \<times> err option) \<times> world" where
  "XADD w key xid flds = XADD_loop w key xid flds 0"

subsection \<open>XRANGE, XREVRANGE, XREAD\<close>

text \<open>The loop of \<open>xRange\<close>: \<open>hasMoreResults\<close> is true whenever the loop is entered again,
  so the loop is entered while \<open>count > 0\<close>. \<open>count\<close> only falls, and never below 0,
  so the \<open>int32\<close> cannot overflow.\<close>

function xRange_loop ::
  "world \<Rightarrow> string \<Rightarrow> XID \<Rightarrow> XID \<Rightarrow> bool \<Rightarrow> string option \<Rightarrow> int \<Rightarrow> StreamItem list \<Rightarrow>
   (StreamItem list \<times> err option) \<times> world" where
  "xRange_loop w key start stop forward cursor count streamItems =
     (if count > 0 then
        (case Query w key start stop forward (Some count) (\<lambda>m. True) cursor of
           (Inl e, w') \<Rightarrow> ((streamItems, Some e), w')
         | (Inr (items, lek), w') \<Rightarrow>
             (case lek of
                None \<Rightarrow> ((streamItems @ map parseStreamItem items, None), w')
              | Some k \<Rightarrow>
                  xRange_loop w' key start stop forward (Some k) (count - int (length items))
                    (streamItems @ map parseStreamItem items)))
      else ((streamItems, None), w))"
  by pat_completeness auto
termination
proof (relation "measures
    [\<lambda>(w, key, start, stop, forward, cursor, count, streamItems). length (env w),
     \<lambda>(w, key, start, stop, forward, cursor, count, streamItems).
        length (scan_from forward cursor (part_keys (tbl w) key start stop))]", goal_cases)
  case 1
  show ?case by simp
next
  case (2 w key start stop forward cursor count streamItems x1 w' x2 items lek k)
  then have "Query w key start stop forward (Some count) (\<lambda>m. True) cursor = (Inr (items, Some k), w')"
    by simp
  from Query_progress [OF this] show ?case by auto
qed

declare xRange_loop.simps [simp del]

definition xRange ::
  "world \<Rightarrow> string \<Rightarrow> XID \<Rightarrow> XID \<Rightarrow> int \<Rightarrow> bool \<Rightarrow> (StreamItem list \<times> err option) \<times> world" where
  "xRange w key start stop count forward = xRange_loop w key start stop forward None count []"

definition XRANGE ::
  "world \<Rightarrow> string \<Rightarrow> XID \<Rightarrow> XID \<Rightarrow> int \<Rightarrow> (StreamItem list \<times> err option) \<times> world" where
  "XRANGE w key start stop count = xRange w key start stop count True"

definition XREVRANGE ::
  "world \<Rightarrow> string \<Rightarrow> XID \<Rightarrow> XID \<Rightarrow> int \<Rightarrow> (StreamItem list \<times> err option) \<times> world" where
  "XREVRANGE w key stop start count = xRange w key start stop count False"

definition XREAD ::
  "world \<Rightarrow> string \<Rightarrow> XID \<Rightarrow> int \<Rightarrow> ((StreamItem list \<times> err option) \<times> world) outcome" where
  "XREAD w key frm count =
     (case Next frm of
        Panic \<Rightarrow> Panic
      | Return nx \<Rightarrow> Return (XRANGE w key nx XEnd count))"

subsection \<open>What a request does to the schedule and to the keys of the table\<close>

definition quiet :: "world \<Rightarrow> bool" where
  "quiet w \<longleftrightarrow> env w = []"

text \<open>\<open>settles w w'\<close>: from \<open>w\<close> to \<open>w'\<close> the schedule has not grown, and if the client
  was alone in \<open>w\<close> it still is in \<open>w'\<close> and no key has been added to the table.\<close>

definition settles :: "world \<Rightarrow> world \<Rightarrow> bool" where
  "settles w w' \<longleftrightarrow>
     length (env w') \<le> length (env w) \<and>
     (env w = [] \<longrightarrow> env w' = [] \<and> fst ` set (tbl w') \<subseteq> fst ` set (tbl w))"

lemma settles_refl [simp]: "settles w w"
  by (simp add: settles_def)

lemma settles_trans: "settles w w1 \<Longrightarrow> settles w1 w2 \<Longrightarrow> settles w w2"
  unfolding settles_def by (meson order_trans)

lemma settles_arrive_fail: "arrive w = (Inl e, w') \<Longrightarrow> settles w w'"
  by (auto simp: arrive_def settles_def split: list.splits event.splits)

lemma arrive_cases:
  assumes "arrive w = (Inr t, w')"
  shows "(env w = [] \<and> w' = w \<and> t = tbl w) \<or> (env w \<noteq> [] \<and> length (env w') < length (env w) \<and> tbl w' = t)"
  using assms by (auto simp: arrive_def split: list.splits event.splits)

lemma settles_write:
  assumes "arrive w = (Inr t, w')" and "fst ` set t' \<subseteq> fst ` set t"
  shows "settles w (w'\<lparr>tbl := t'\<rparr>)"
  using arrive_cases [OF assms(1)] assms(2) by (auto simp: settles_def)

lemma settles_read:
  assumes "arrive w = (Inr t, w')"
  shows "settles w w'"
  using arrive_cases [OF assms(1)] by (auto simp: settles_def)

lemma keys_delete: "fst ` set (AList.delete k t) \<subseteq> fst ` set t"
  by (induction t) auto

lemma keys_update_present: "map_of t k \<noteq> None \<Longrightarrow> fst ` set (AList.update k m t) = fst ` set t"
proof -
  assume "map_of t k \<noteq> None"
  then have "k \<in> fst ` set t" by (simp add: map_of_eq_None_iff)
  moreover have "fst ` set (AList.update k m t) = insert k (fst ` set t)"
    using dom_update [of k m t] by (simp add: dom_map_of_conv_image_fst)
  ultimately show ?thesis by auto
qed

lemma settles_GetItem: "GetItem w k = (r, w') \<Longrightarrow> settles w w'"
  by (auto simp: GetItem_def split: prod.splits sum.splits
      intro: settles_arrive_fail settles_read)

lemma settles_Query: "Query w pk lo hi forward lim flt esk = (r, w') \<Longrightarrow> settles w w'"
  by (auto simp: Query_def split: prod.splits sum.splits
      intro: settles_arrive_fail settles_read)

lemma settles_DeleteItem: "DeleteItem w k = (r, w') \<Longrightarrow> settles w w'"
  by (auto simp: DeleteItem_def split: prod.splits sum.splits
      intro: settles_arrive_fail settles_write [OF _ keys_delete])

text \<open>An update under a condition that only an existing item meets adds no key.\<close>

definition needs_item :: "cond list \<Rightarrow> bool" where
  "needs_item cs \<longleftrightarrow> (\<forall>k. \<not> list_all (holds k None) cs)"

lemma needs_item_CondEQ [simp]: "needs_item (CondEQ a v # cs)"
  by (simp add: needs_item_def attr_of_def)

lemma needs_item_CondExists [simp]: "needs_item (CondExists a # cs)"
  by (simp add: needs_item_def attr_of_def)

lemma update_item_keys:
  assumes "update_item t k cs us = Inr t'" and "needs_item cs"
  shows "fst ` set t' = fst ` set t"
proof -
  have "map_of t k \<noteq> None"
  proof
    assume n: "map_of t k = None"
    from assms(1) have "list_all (holds k (map_of t k)) cs"
      by (auto simp: update_item_def split: if_splits)
    with n assms(2) show False unfolding needs_item_def by metis
  qed
  moreover from assms obtain m where "t' = AList.update k m t"
    by (auto simp: update_item_def write_upds_def split: if_splits option.splits)
  ultimately show ?thesis by (simp add: keys_update_present)
qed

lemma settles_UpdateItem:
  assumes "UpdateItem w k cs us = (r, w')" and "needs_item cs"
  shows "settles w w'"
proof (cases "arrive w")
  case (Pair a w1)
  show ?thesis
  proof (cases a)
    case (Inl e)
    with Pair assms show ?thesis by (auto simp: UpdateItem_def intro: settles_arrive_fail)
  next
    case (Inr t)
    show ?thesis
    proof (cases "update_item t k cs us")
      case (Inl e)
      with Pair Inr assms show ?thesis by (auto simp: UpdateItem_def intro: settles_read)
    next
      case r: (Inr t')
      have "fst ` set t' \<subseteq> fst ` set t" using update_item_keys [OF r assms(2)] by simp
      with Pair Inr r assms show ?thesis by (auto simp: UpdateItem_def intro: settles_write)
    qed
  qed
qed

lemma settles_xRange_loop:
  "xRange_loop w key start stop forward cursor count acc = (r, w') \<Longrightarrow> settles w w'"
proof (induction w key start stop forward cursor count acc arbitrary: r w' rule: xRange_loop.induct)
  case (1 w key start stop forward cursor count streamItems)
  show ?case
  proof (cases "count > 0")
    case False
    with "1.prems" show ?thesis by (simp add: xRange_loop.simps)
  next
    case True
    obtain q w1 where q: "Query w key start stop forward (Some count) (\<lambda>m. True) cursor = (q, w1)"
      by (cases "Query w key start stop forward (Some count) (\<lambda>m. True) cursor")
    have s1: "settles w w1" using q by (rule settles_Query)
    show ?thesis
    proof (cases q)
      case (Inl e)
      with True q "1.prems" s1 show ?thesis by (simp add: xRange_loop.simps [of w])
    next
      case (Inr p)
      obtain items lek where p: "p = (items, lek)" by (cases p)
      show ?thesis
      proof (cases lek)
        case None
        with True q Inr p "1.prems" s1 show ?thesis by (simp add: xRange_loop.simps [of w])
      next
        case (Some k)
        have "xRange_loop w1 key start stop forward (Some k) (count - int (length items))
                (streamItems @ map parseStreamItem items) = (r, w')"
          using True q Inr p Some "1.prems" by (simp add: xRange_loop.simps [of w])
        then have "settles w1 w'"
          using "1.IH" [OF True q [symmetric] Inr p [symmetric] Some] by blast
        with s1 show ?thesis by (rule settles_trans)
      qed
    qed
  qed
qed

lemma settles_XRANGE: "XRANGE w key start stop count = (r, w') \<Longrightarrow> settles w w'"
  by (auto simp: XRANGE_def xRange_def intro: settles_xRange_loop)

subsection \<open>How far a scan still has to go\<close>

lemma set_part_keys:
  "set (part_keys t pk lo hi) = {sk. (pk, sk) \<in> fst ` set t \<and> lo \<le> sk \<and> sk \<le> hi}"
  by (force simp: part_keys_def image_iff)

lemma distinct_part_keys [simp]: "distinct (part_keys t pk lo hi)"
  by (simp add: part_keys_def)

lemma sorted_part_keys [simp]: "sorted (part_keys t pk lo hi)"
  by (simp add: part_keys_def)

lemma distinct_scan_from [simp]: "distinct ks \<Longrightarrow> distinct (scan_from forward esk ks)"
  by (simp add: scan_from_def)

lemma set_scan_from: "set (scan_from forward esk ks) = {s \<in> set ks. after forward esk s}"
  by (auto simp: scan_from_def)

lemma scan_length_mono:
  assumes "fst ` set t' \<subseteq> fst ` set t"
  shows "length (scan_from forward esk (part_keys t' pk lo hi))
           \<le> length (scan_from forward esk (part_keys t pk lo hi))"
proof -
  let ?a = "scan_from forward esk (part_keys t' pk lo hi)"
  let ?b = "scan_from forward esk (part_keys t pk lo hi)"
  have "set ?a \<subseteq> set ?b" using assms by (auto simp: set_scan_from set_part_keys)
  then have "card (set ?a) \<le> card (set ?b)" by (intro card_mono) auto
  then show ?thesis by (simp add: distinct_card)
qed

text \<open>After a page that names a key to go on from, and any requests that settle, the
  measure of the scan loops has fallen.\<close>

lemma scan_measure_falls:
  assumes q: "Query w pk lo hi forward lim flt esk = (Inr (items, Some k), w1)"
    and s: "settles w1 w2"
  shows "length (env w2) < length (env w) \<or>
         (length (env w2) = length (env w) \<and>
          length (scan_from forward (Some k) (part_keys (tbl w2) pk lo hi))
            < length (scan_from forward esk (part_keys (tbl w) pk lo hi)))"
proof -
  from Query_progress [OF q] show ?thesis
  proof
    assume "env w \<noteq> [] \<and> length (env w1) < length (env w)"
    with s show ?thesis by (auto simp: settles_def)
  next
    assume a: "env w = [] \<and> w1 = w \<and>
      length (scan_from forward (Some k) (part_keys (tbl w) pk lo hi))
        < length (scan_from forward esk (part_keys (tbl w) pk lo hi))"
    with s have e: "env w2 = []" and sub: "fst ` set (tbl w2) \<subseteq> fst ` set (tbl w)"
      by (auto simp: settles_def)
    have "length (scan_from forward (Some k) (part_keys (tbl w2) pk lo hi))
            \<le> length (scan_from forward (Some k) (part_keys (tbl w) pk lo hi))"
      using sub by (rule scan_length_mono)
    with a e show ?thesis by simp
  qed
qed

subsection \<open>XDEL and XACK\<close>

fun XDEL_loop :: "world \<Rightarrow> string \<Rightarrow> XID list \<Rightarrow> XID list \<Rightarrow> (XID list \<times> err option) \<times> world" where
  "XDEL_loop w key [] deletedItems = ((deletedItems, None), w)"
| "XDEL_loop w key (xid # ids) deletedItems =
     (case DeleteItem w (key, xid) of
        (Inl e, w') \<Rightarrow> ((deletedItems, Some e), w')
      | (Inr old, w') \<Rightarrow>
          XDEL_loop w' key ids (if old \<noteq> None then deletedItems @ [xid] else deletedItems))"

definition XDEL :: "world \<Rightarrow> string \<Rightarrow> XID list \<Rightarrow> (XID list \<times> err option) \<times> world" where
  "XDEL w key ids = XDEL_loop w key ids []"

fun XACK_loop :: "world \<Rightarrow> string \<Rightarrow> string \<Rightarrow> XID list \<Rightarrow> XID list \<Rightarrow> (XID list \<times> err option) \<times> world" where
  "XACK_loop w key grp [] acknowledgedIds = ((acknowledgedIds, None), w)"
| "XACK_loop w key grp (xid # ids) acknowledgedIds =
     (case DeleteItem w (xGroupKey key grp, xid) of
        (Inl e, w') \<Rightarrow> ((acknowledgedIds, Some e), w')
      | (Inr old, w') \<Rightarrow>
          XACK_loop w' key grp ids
            (if old \<noteq> None then acknowledgedIds @ [xid] else acknowledgedIds))"

definition XACK :: "world \<Rightarrow> string \<Rightarrow> string \<Rightarrow> XID list \<Rightarrow> (XID list \<times> err option) \<times> world" where
  "XACK w key grp ids = XACK_loop w key grp ids []"

lemma settles_XDEL_loop: "XDEL_loop w key ids acc = (r, w') \<Longrightarrow> settles w w'"
proof (induction ids arbitrary: w acc)
  case Nil
  then show ?case by simp
next
  case (Cons xid ids)
  obtain d w1 where d: "DeleteItem w (key, xid) = (d, w1)" by (cases "DeleteItem w (key, xid)")
  have s: "settles w w1" using d by (rule settles_DeleteItem)
  show ?case
  proof (cases d)
    case (Inl e)
    with d Cons.prems s show ?thesis by simp
  next
    case (Inr old)
    with d Cons.prems have "settles w1 w'" by (auto intro: Cons.IH)
    with s show ?thesis by (rule settles_trans)
  qed
qed

lemma settles_XDEL: "XDEL w key ids = (r, w') \<Longrightarrow> settles w w'"
  unfolding XDEL_def by (rule settles_XDEL_loop)

subsection \<open>XTRIM\<close>

text \<open>The inner loop of \<open>XTRIM\<close> over one page. \<open>newCount\<close> is an \<open>int32\<close> that is only
  compared with 0 and decremented.\<close>

fun trim_page :: "(string \<times> attrs) list \<Rightarrow> 32 word \<Rightarrow> XID list \<Rightarrow> XID list \<times> 32 word" where
  "trim_page [] newCount idsToDelete = (idsToDelete, newCount)"
| "trim_page (item # items) newCount idsToDelete =
     (if newCount = 0 then trim_page items newCount (idsToDelete @ [fst item])
      else trim_page items (newCount - 1) idsToDelete)"

function XTRIM_loop ::
  "world \<Rightarrow> string \<Rightarrow> string option \<Rightarrow> 32 word \<Rightarrow> 32 word \<Rightarrow> (32 word \<times> err option) \<times> world" where
  "XTRIM_loop w key cursor newCount deletedCount =
     (case Query w key XStart XEnd False None (\<lambda>m. True) cursor of
        (Inl e, w1) \<Rightarrow> ((deletedCount, Some e), w1)
      | (Inr (items, lek), w1) \<Rightarrow>
          (case trim_page items newCount [] of
             (idsToDelete, newCount') \<Rightarrow>
               if length idsToDelete > 0 then
                 (case XDEL w1 key idsToDelete of
                    ((d, Some e), w2) \<Rightarrow>
                      ((deletedCount + word_of_nat (length idsToDelete), Some e), w2)
                  | ((d, None), w2) \<Rightarrow>
                      (case lek of
                         None \<Rightarrow> ((deletedCount + word_of_nat (length idsToDelete), None), w2)
                       | Some k \<Rightarrow>
                           XTRIM_loop w2 key (Some k) newCount'
                             (deletedCount + word_of_nat (length idsToDelete))))
               else
                 (case lek of
                    None \<Rightarrow> ((deletedCount, None), w1)
                  | Some k \<Rightarrow> XTRIM_loop w1 key (Some k) newCount' deletedCount)))"
  by pat_completeness auto
termination
proof (relation "measures
    [\<lambda>(w, key, cursor, newCount, deletedCount). length (env w),
     \<lambda>(w, key, cursor, newCount, deletedCount).
        length (scan_from False cursor (part_keys (tbl w) key XStart XEnd))]", goal_cases)
  case 1
  show ?case by simp
next
  case (2 w key cursor newCount deletedCount x w1 b items lek idsToDelete newCount' xc w2 d e k)
  then have q: "Query w key XStart XEnd False None (\<lambda>m. True) cursor = (Inr (items, Some k), w1)"
    by simp
  from 2 have "XDEL w1 key idsToDelete = ((d, None), w2)" by simp
  then have "settles w1 w2" by (rule settles_XDEL)
  from scan_measure_falls [OF q this] show ?case by auto
next
  case (3 w key cursor newCount deletedCount x w1 b items lek idsToDelete newCount' k)
  then have q: "Query w key XStart XEnd False None (\<lambda>m. True) cursor = (Inr (items, Some k), w1)"
    by simp
  from scan_measure_falls [OF q settles_refl] show ?case by auto
qed

declare XTRIM_loop.simps [simp del]

definition XTRIM :: "world \<Rightarrow> string \<Rightarrow> 32 word \<Rightarrow> (32 word \<times> err option) \<times> world" where
  "XTRIM w key newCount = XTRIM_loop w key None newCount 0"

subsection \<open>The consumer groups\<close>

text \<open>\<open>HSET\<close> (hashes.go) with a map of fields: one unconditional update per field, in the
  order of the list (a Go map of one field, as the cursor's, has one order). It answers
  the fields that were not there before.\<close>

fun HSET_loop ::
  "world \<Rightarrow> string \<Rightarrow> (string \<times> av) list \<Rightarrow> (string \<times> av) list \<Rightarrow>
   ((string \<times> av) list \<times> err option) \<times> world" where
  "HSET_loop w key [] newlySavedFields = ((newlySavedFields, None), w)"
| "HSET_loop w key (fv # fieldMap) newlySavedFields =
     (case UpdateItem w (key, fst fv) [] [SET vk (snd fv)] of
        (Inl e, w') \<Rightarrow> ((newlySavedFields, Some e), w')
      | (Inr r, w') \<Rightarrow>
          HSET_loop w' key fieldMap
            (if fst r = None then newlySavedFields @ [fv] else newlySavedFields))"

definition HSET :: "world \<Rightarrow> string \<Rightarrow> (string \<times> av) list \<Rightarrow> ((string \<times> av) list \<times> err option) \<times> world" where
  "HSET w key fieldMap = HSET_loop w key fieldMap []"

definition xGroupCursorSet :: "world \<Rightarrow> string \<Rightarrow> string \<Rightarrow> XID \<Rightarrow> err option \<times> world" where
  "xGroupCursorSet w key grp start =
     (case HSET w (fst (xGroupCursorKey key grp)) [(snd (xGroupCursorKey key grp), StrV start)] of
        ((saved, e), w') \<Rightarrow> (e, w'))"

definition XGROUP :: "world \<Rightarrow> string \<Rightarrow> string \<Rightarrow> XID \<Rightarrow> err option \<times> world" where
  "XGROUP w key grp start = xGroupCursorSet w key grp start"

definition xGroupCursorGet :: "world \<Rightarrow> string \<Rightarrow> string \<Rightarrow> (err + XID) \<times> world" where
  "xGroupCursorGet w key grp =
     (case GetItem w (xGroupCursorKey key grp) of
        (Inl e, w') \<Rightarrow> (Inl e, w')
      | (Inr it, w') \<Rightarrow>
          (let cursor = ReturnValue_String (attr_of (xGroupCursorKey key grp) it vk)
           in if cursor = [] then (Inl ErrXGroupNotInitialized, w') else (Inr cursor, w')))"

definition xGroupCursorPushAction :: "string \<Rightarrow> string \<Rightarrow> XID \<Rightarrow> action" where
  "xGroupCursorPushAction key grp xid =
     Update (xGroupCursorKey key grp) [CondLT vk (StrV xid)] [SET vk (StrV xid)]"

text \<open>The fields of a \<open>PendingItem\<close>; its \<open>ID\<close> is called \<open>PendingID\<close> here, the name
  \<open>ID\<close> being the field of \<open>StreamItem\<close>.\<close>

record PendingItem =
  PendingID :: XID
  Consumer :: string
  LastDelivered :: int64
  DeliveryCount :: "32 word"

definition toPutAction :: "PendingItem \<Rightarrow> string \<Rightarrow> action" where
  "toPutAction pi key =
     Update (key, PendingID pi) []
       [SET consumerKey (StrV (Consumer pi)),
        SET lastDeliveryTimestampKey (NumV (sint (LastDelivered pi))),
        ADD deliveryCountKey 1]"

definition parsePendingItem :: "string \<times> attrs \<Rightarrow> PendingItem" where
  "parsePendingItem item =
     \<lparr>PendingID = fst item,
      Consumer = ReturnValue_String (snd item consumerKey),
      LastDelivered = ReturnValue_Int (snd item lastDeliveryTimestampKey),
      DeliveryCount = ucast (ReturnValue_Int (snd item deliveryCountKey))\<rparr>"

subsection \<open>XCLAIM\<close>

fun XCLAIM_loop ::
  "world \<Rightarrow> string \<Rightarrow> string \<Rightarrow> string \<Rightarrow> int64 \<Rightarrow> XID list \<Rightarrow> StreamItem list \<Rightarrow>
   (StreamItem list \<times> err option) \<times> world" where
  "XCLAIM_loop w key grp consumer lastDeliveredBefore [] items = ((items, None), w)"
| "XCLAIM_loop w key grp consumer lastDeliveredBefore (xid # ids) items =
     (case UpdateItem w (xGroupKey key grp, xid)
             [CondExists partitionKey,
              CondLE lastDeliveryTimestampKey (NumV (sint lastDeliveredBefore))]
             [SET lastDeliveryTimestampKey (NumV (sint (now w))),
              SET deliveryCountKey (NumV 0),
              SET consumerKey (StrV consumer)] of
        (Inl e, w1) \<Rightarrow>
          if conditionFailureError (Some e)
          then XCLAIM_loop w1 key grp consumer lastDeliveredBefore ids items
          else ((items, Some e), w1)
      | (Inr r, w1) \<Rightarrow>
          (case XRANGE w1 key xid xid 1 of
             ((fetchedItems, e), w2) \<Rightarrow>
               (case fetchedItems of
                  [] \<Rightarrow> ((items, Some (CouldNotLoadStreamItem e)), w2)
                | f # fs \<Rightarrow>
                    if e \<noteq> None then ((items, Some (CouldNotLoadStreamItem e)), w2)
                    else XCLAIM_loop w2 key grp consumer lastDeliveredBefore ids (items @ [f]))))"

definition XCLAIM ::
  "world \<Rightarrow> string \<Rightarrow> string \<Rightarrow> string \<Rightarrow> int64 \<Rightarrow> XID list \<Rightarrow>
   (StreamItem list \<times> err option) \<times> world" where
  "XCLAIM w key grp consumer lastDeliveredBefore ids =
     XCLAIM_loop w key grp consumer lastDeliveredBefore ids []"

subsection \<open>XREADGROUP\<close>

definition XReadPending :: string where "XReadPending = ''PENDING''"
definition XReadNew :: string where "XReadNew = ''READ_NEW''"
definition XReadNewAutoACK :: string where "XReadNewAutoACK = ''READ_NEW_NO_ACK''"

text \<open>The inner loop of \<open>xGroupReadPending\<close> over one page of pending entries. \<open>Inl\<close> is
  the end of the page, with the items and the count to go on with; \<open>Inr\<close> is a return
  from inside the loop.\<close>

fun readPending_page ::
  "world \<Rightarrow> string \<Rightarrow> string \<Rightarrow> (string \<times> attrs) list \<Rightarrow> int \<Rightarrow> StreamItem list \<Rightarrow>
   ((StreamItem list \<times> int) + (StreamItem list \<times> err option)) \<times> world" where
  "readPending_page w key grp [] count items = (Inl (items, count), w)"
| "readPending_page w key grp (item # rest) count items =
     (case UpdateItem w (xGroupKey key grp, PendingID (parsePendingItem item))
             [CondEQ consumerKey (StrV (Consumer (parsePendingItem item)))]
             [SET lastDeliveryTimestampKey (NumV (sint (now w))), ADD deliveryCountKey 1] of
        (Inl e, w1) \<Rightarrow> (Inr (items, Some e), w1)
      | (Inr r, w1) \<Rightarrow>
          (case XRANGE w1 key (PendingID (parsePendingItem item)) (PendingID (parsePendingItem item)) 1 of
             ((fetchedItems, e), w2) \<Rightarrow>
               (case fetchedItems of
                  [] \<Rightarrow> (Inr (items, e), w2)
                | f # fs \<Rightarrow>
                    if e \<noteq> None then (Inr (items, e), w2)
                    else readPending_page w2 key grp rest (count - 1) (items @ [f]))))"

lemma settles_readPending_page:
  "readPending_page w key grp pitems count items = (r, w') \<Longrightarrow> settles w w'"
proof (induction pitems arbitrary: w count items)
  case Nil
  then show ?case by simp
next
  case (Cons item rest)
  let ?pi = "parsePendingItem item"
  obtain u w1 where u: "UpdateItem w (xGroupKey key grp, PendingID ?pi)
             [CondEQ consumerKey (StrV (Consumer ?pi))]
             [SET lastDeliveryTimestampKey (NumV (sint (now w))), ADD deliveryCountKey 1] = (u, w1)"
    by (meson surj_pair)
  have s1: "settles w w1" using u by (rule settles_UpdateItem) simp
  show ?case
  proof (cases u)
    case (Inl e)
    with u Cons.prems s1 show ?thesis by simp
  next
    case (Inr r')
    obtain fetched e w2 where x: "XRANGE w1 key (PendingID ?pi) (PendingID ?pi) 1 = ((fetched, e), w2)"
      by (metis surj_pair)
    have s2: "settles w w2" using s1 settles_XRANGE [OF x] by (rule settles_trans)
    show ?thesis
    proof (cases "fetched = [] \<or> e \<noteq> None")
      case True
      with u Inr x Cons.prems s2 show ?thesis by (auto split: list.splits)
    next
      case False
      then obtain f fs where f: "fetched = f # fs" "e = None" by (cases fetched) auto
      with u Inr x Cons.prems have "readPending_page w2 key grp rest (count - 1) (items @ [f]) = (r, w')"
        by simp
      then have "settles w2 w'" by (rule Cons.IH)
      with s2 show ?thesis by (rule settles_trans)
    qed
  qed
qed

function xGroupReadPending_loop ::
  "world \<Rightarrow> string \<Rightarrow> string \<Rightarrow> string \<Rightarrow> string option \<Rightarrow> int \<Rightarrow> StreamItem list \<Rightarrow>
   (StreamItem list \<times> err option) \<times> world" where
  "xGroupReadPending_loop w key grp consumer cursor count items =
     (if count > 0 then
        (case Query w (xGroupKey key grp) XStart XEnd True (Some count)
                (\<lambda>m. m consumerKey = Some (StrV consumer)) cursor of
           (Inl e, w1) \<Rightarrow> ((items, Some e), w1)
         | (Inr (pitems, lek), w1) \<Rightarrow>
             (case readPending_page w1 key grp pitems count items of
                (Inr r, w2) \<Rightarrow> (r, w2)
              | (Inl (items', count'), w2) \<Rightarrow>
                  (case lek of
                     None \<Rightarrow> ((items', None), w2)
                   | Some k \<Rightarrow> xGroupReadPending_loop w2 key grp consumer (Some k) count' items')))
      else ((items, None), w))"
  by pat_completeness auto
termination
proof (relation "measures
    [\<lambda>(w, key, grp, consumer, cursor, count, items). length (env w),
     \<lambda>(w, key, grp, consumer, cursor, count, items).
        length (scan_from True cursor (part_keys (tbl w) (xGroupKey key grp) XStart XEnd))]",
    goal_cases)
  case 1
  show ?case by simp
next
  case (2 w key grp consumer cursor count items x w1 b pitems lek xa w2 xb items' count' k)
  then have q: "Query w (xGroupKey key grp) XStart XEnd True (Some count)
                (\<lambda>m. m consumerKey = Some (StrV consumer)) cursor = (Inr (pitems, Some k), w1)"
    by simp
  from 2 have "readPending_page w1 key grp pitems count items = (Inl (items', count'), w2)" by simp
  then have "settles w1 w2" by (rule settles_readPending_page)
  from scan_measure_falls [OF q this] show ?case by auto
qed

declare xGroupReadPending_loop.simps [simp del]

definition xGroupReadPending ::
  "world \<Rightarrow> string \<Rightarrow> string \<Rightarrow> string \<Rightarrow> int \<Rightarrow> (StreamItem list \<times> err option) \<times> world" where
  "xGroupReadPending w key grp consumer count =
     xGroupReadPending_loop w key grp consumer None count []"

text \<open>One pass through the body of the loop of \<open>XREADGROUP\<close>, for the modes that read
  new items: it ends the call (\<open>Done\<close>), or it has lost the race for the cursor and
  the loop goes round again (\<open>Retry\<close>).\<close>

datatype attempt =
    Done "((StreamItem list \<times> err option) \<times> world) outcome"
  | Retry world

definition XREADGROUP_attempt ::
  "world \<Rightarrow> string \<Rightarrow> string \<Rightarrow> string \<Rightarrow> string \<Rightarrow> attempt" where
  "XREADGROUP_attempt w key grp consumer opt =
     (case xGroupCursorGet w key grp of
        (Inl e, w1) \<Rightarrow> Done (Return (([], Some e), w1))
      | (Inr currentCursor, w1) \<Rightarrow>
          (case Next currentCursor of
             Panic \<Rightarrow> Done Panic
           | Return nx \<Rightarrow>
               (case XRANGE w1 key nx XEnd 1 of
                  ((items, e), w2) \<Rightarrow>
                    (case items of
                       [] \<Rightarrow> Done (Return ((items, e), w2))
                     | item # others \<Rightarrow>
                         if e \<noteq> None then Done (Return ((items, e), w2))
                         else
                           (case TransactWriteItems w2
                                   (xGroupCursorPushAction key grp (ID item) #
                                    (if opt = XReadNew
                                     then [toPutAction
                                             \<lparr>PendingID = ID item, Consumer = consumer,
                                              LastDelivered = now w2, DeliveryCount = 0\<rparr>
                                             (xGroupKey key grp)]
                                     else [])) of
                              (None, w3) \<Rightarrow> Done (Return ((items, None), w3))
                            | (Some e', w3) \<Rightarrow>
                                if \<not> conditionFailureError (Some e')
                                then Done (Return ((items, Some e'), w3))
                                else Retry w3)))))"

text \<open>The loop: at most 5 passes. The \<open>items\<close> of the loop body shadow the result of the
  function, so that the return after the loop answers no items.\<close>

function XREADGROUP_loop ::
  "world \<Rightarrow> string \<Rightarrow> string \<Rightarrow> string \<Rightarrow> string \<Rightarrow> nat \<Rightarrow>
   ((StreamItem list \<times> err option) \<times> world) outcome" where
  "XREADGROUP_loop w key grp consumer opt retryCount =
     (if retryCount < 5 then
        (case XREADGROUP_attempt w key grp consumer opt of
           Done r \<Rightarrow> r
         | Retry w' \<Rightarrow> XREADGROUP_loop w' key grp consumer opt (retryCount + 1))
      else Return (([], Some TooMuchContention), w))"
  by pat_completeness auto
termination
  by (relation "measure (\<lambda>(w, key, grp, consumer, opt, retryCount). 5 - retryCount)") auto

declare XREADGROUP_loop.simps [simp del]

definition XREADGROUP ::
  "world \<Rightarrow> string \<Rightarrow> string \<Rightarrow> string \<Rightarrow> string \<Rightarrow> int \<Rightarrow>
   ((StreamItem list \<times> err option) \<times> world) outcome" where
  "XREADGROUP w key grp consumer opt maxCount =
     (if opt = XReadPending then Return (xGroupReadPending w key grp consumer maxCount)
      else XREADGROUP_loop w key grp consumer opt 0)"

subsection \<open>Requests of a client that is alone\<close>

lemma quiet_upd [simp]: "quiet (w\<lparr>tbl := t\<rparr>) = quiet w"
  by (simp add: quiet_def)

lemma arrive_quiet': "quiet w \<Longrightarrow> arrive w = (Inr (tbl w), w)"
  by (simp add: quiet_def arrive_quiet)

lemma GetItem_quiet: "quiet w \<Longrightarrow> GetItem w k = (Inr (map_of (tbl w) k), w)"
  by (simp add: GetItem_def arrive_quiet')

lemma DeleteItem_quiet:
  "quiet w \<Longrightarrow> DeleteItem w k = (Inr (map_of (tbl w) k), w\<lparr>tbl := AList.delete k (tbl w)\<rparr>)"
  by (simp add: DeleteItem_def arrive_quiet')

lemma UpdateItem_quiet:
  "quiet w \<Longrightarrow> UpdateItem w k cs us =
     (case update_item (tbl w) k cs us of
        Inl e \<Rightarrow> (Inl e, w)
      | Inr t' \<Rightarrow> (Inr (map_of (tbl w) k, item_or_empty t' k), w\<lparr>tbl := t'\<rparr>))"
  by (simp add: UpdateItem_def arrive_quiet')

lemma TransactWriteItems_quiet:
  "quiet w \<Longrightarrow> TransactWriteItems w as =
     (case transact (tbl w) as of Inl e \<Rightarrow> (Some e, w) | Inr t' \<Rightarrow> (None, w\<lparr>tbl := t'\<rparr>))"
  by (simp add: TransactWriteItems_def arrive_quiet')

lemma Query_quiet:
  "quiet w \<Longrightarrow> Query w pk lo hi forward lim flt esk =
     (query_page (tbl w) (page w) pk lo hi forward lim flt esk, w)"
  by (simp add: Query_def arrive_quiet')

subsection \<open>XADD and the watermark\<close>

text \<open>The watermark of a stream, as the conditions of \<open>XADD\<close> see it: the value
  attribute of the record at the sequence key.\<close>

definition watermark :: "table \<Rightarrow> string \<Rightarrow> av option" where
  "watermark t key = attr_of (xSequenceKey key) (map_of t (xSequenceKey key)) vk"

definition admit :: "table \<Rightarrow> string \<Rightarrow> XID \<Rightarrow> (string \<Rightarrow> av option) \<Rightarrow> table" where
  "admit t key xid flds =
     AList.update (xSequenceKey key) ((item_or_empty t (xSequenceKey key))(vk \<mapsto> StrV xid))
       (AList.update (key, xid) (toAV \<lparr>ID = xid, Fields = flds\<rparr>) t)"

definition init_watermark :: "table \<Rightarrow> string \<Rightarrow> table" where
  "init_watermark t key =
     AList.update (xSequenceKey key) ((item_or_empty t (xSequenceKey key))(vk \<mapsto> StrV XStart)) t"

lemma xSequenceKey_neq: "(key, xid) \<noteq> xSequenceKey key"
proof
  assume "(key, xid) = xSequenceKey key"
  then have "key = ''_redimo/seq/'' @ key" by (simp add: xSequenceKey_def)
  then have "length key = length (''_redimo/seq/'' @ key)" by (rule arg_cong)
  then show False by simp
qed

lemma vk_not_key [simp]: "vk \<noteq> partitionKey" "vk \<noteq> sortKey"
  by (simp_all add: vk_def partitionKey_def sortKey_def)

lemma watermark_holds:
  "holds (xSequenceKey key) (map_of t (xSequenceKey key)) (CondLT vk (StrV xid))
     \<longleftrightarrow> (\<exists>x. watermark t key = Some (StrV x) \<and> x < xid)"
proof (cases "watermark t key")
  case None
  then show ?thesis by (simp add: watermark_def)
next
  case (Some v)
  then show ?thesis by (cases v) (simp_all add: watermark_def)
qed

lemma item_or_empty_other:
  "k' \<noteq> k \<Longrightarrow> item_or_empty (AList.update k' m t) k = item_or_empty t k"
  by (simp add: item_or_empty_def update_conv')

lemma transact_XADD:
  "transact t [putAction \<lparr>ID = xid, Fields = flds\<rparr> key, sequenceUpdateAction xid key] =
     (if \<exists>x. watermark t key = Some (StrV x) \<and> x < xid then Inr (admit t key xid flds)
      else Inl ConditionFailed)"
  using xSequenceKey_neq [of key xid]
  by (simp add: transact_def putAction_def sequenceUpdateAction_def watermark_holds
      write_upds_def admit_def item_or_empty_other del: holds.simps)

lemma transact_xInit:
  "transact t [xInitAction key] =
     (if watermark t key = None then Inr (init_watermark t key) else Inl ConditionFailed)"
  by (simp add: transact_def xInitAction_def write_upds_def init_watermark_def watermark_def)

lemma xInit_quiet:
  "quiet w \<Longrightarrow> xInit w key =
     (None, if watermark (tbl w) key = None then w\<lparr>tbl := init_watermark (tbl w) key\<rparr> else w)"
  by (simp add: xInit_def TransactWriteItems_quiet transact_xInit conditionFailureError_def)

lemma watermark_init [simp]: "watermark (init_watermark t key) key = Some (StrV XStart)"
  by (simp add: watermark_def init_watermark_def update_conv' attr_of_def)

lemma watermark_admit [simp]: "watermark (admit t key xid flds) key = Some (StrV xid)"
  by (simp add: watermark_def admit_def update_conv' attr_of_def)

lemma item_admit: "map_of (admit t key xid flds) (key, xid) = Some (toAV \<lparr>ID = xid, Fields = flds\<rparr>)"
  using xSequenceKey_neq [of key xid] by (simp add: admit_def update_conv')

definition admits :: "table \<Rightarrow> string \<Rightarrow> XID \<Rightarrow> bool" where
  "admits t key xid \<longleftrightarrow> (\<exists>x. watermark t key = Some (StrV x) \<and> x < xid)"

lemma XADD_loop_second:
  assumes "quiet w" and "xid \<noteq> XAutoID"
  shows "XADD_loop w key xid flds (Suc 0) =
     (if admits (tbl w) key xid then ((xid, None), w\<lparr>tbl := admit (tbl w) key xid flds\<rparr>)
      else (([], Some ConditionFailed), w))"
  using assms
  by (subst XADD_loop.simps)
    (simp add: TransactWriteItems_quiet transact_XADD admits_def conditionFailureError_def)

lemma XADD_loop_first:
  assumes "quiet w" and "xid \<noteq> XAutoID"
  shows "XADD_loop w key xid flds 0 =
     (if admits (tbl w) key xid then ((xid, None), w\<lparr>tbl := admit (tbl w) key xid flds\<rparr>)
      else XADD_loop (if watermark (tbl w) key = None
                      then w\<lparr>tbl := init_watermark (tbl w) key\<rparr> else w) key xid flds (Suc 0))"
  using assms
  by (subst XADD_loop.simps [of w key xid flds 0])
    (auto simp: TransactWriteItems_quiet transact_XADD admits_def conditionFailureError_def
      xInit_quiet)

lemma admits_init: "admits (init_watermark t key) key xid \<longleftrightarrow> XStart < xid"
  by (simp add: admits_def)

lemma XADD_quiet:
  assumes "quiet w" and "xid \<noteq> XAutoID"
  shows "XADD w key xid flds =
     (if admits (tbl w) key xid then ((xid, None), w\<lparr>tbl := admit (tbl w) key xid flds\<rparr>)
      else if watermark (tbl w) key = None then
        (if XStart < xid
         then ((xid, None), w\<lparr>tbl := admit (init_watermark (tbl w) key) key xid flds\<rparr>)
         else (([], Some ConditionFailed), w\<lparr>tbl := init_watermark (tbl w) key\<rparr>))
      else (([], Some ConditionFailed), w))"
  using assms
  by (auto simp: XADD_def XADD_loop_first XADD_loop_second admits_init)

subsection \<open>A range scan of a client that is alone\<close>

definition before :: "bool \<Rightarrow> string \<Rightarrow> string \<Rightarrow> bool" where
  "before forward a b = (if forward then a < b else b < a)"

lemma after_Some: "after forward (Some k) s = before forward k s"
  by (cases forward) (simp_all add: before_def)

lemma before_trans: "before f a b \<Longrightarrow> before f b c \<Longrightarrow> before f a c"
  by (auto simp: before_def split: if_splits)

lemma before_asym: "before f a b \<Longrightarrow> \<not> before f b a"
  by (auto simp: before_def split: if_splits)

lemma take_min_length: "take (min (length xs) n) xs = take n xs"
  by (simp add: min_def)

lemma nat_minus_int: "nat (c - int m) = nat c - m"
  by arith

lemma last_take: "0 < m \<Longrightarrow> m \<le> length xs \<Longrightarrow> last (take m xs) = xs ! (m - 1)"
proof -
  assume a: "0 < m" "m \<le> length xs"
  then have "take m xs \<noteq> []" by auto
  then have "last (take m xs) = take m xs ! (length (take m xs) - 1)" by (rule last_conv_nth)
  also have "\<dots> = take m xs ! (m - 1)" using a by (simp add: min.absorb2)
  also have "\<dots> = xs ! (m - 1)" using a by simp
  finally show ?thesis .
qed

lemma sorted_wrt_filter_from:
  assumes s: "sorted_wrt (before f) xs" and m: "0 < m" "m \<le> length xs"
  shows "filter (before f (xs ! (m - 1))) xs = drop m xs"
proof -
  let ?k = "xs ! (m - 1)"
  have x: "xs = take m xs @ drop m xs" by simp
  have sw: "sorted_wrt (before f) (take m xs @ drop m xs)" using s by simp
  have k: "?k \<in> set (take m xs)"
  proof -
    have "take m xs \<noteq> []" using m by auto
    then have "last (take m xs) \<in> set (take m xs)" by (rule last_in_set)
    then show ?thesis using m by (simp add: last_take)
  qed
  have d: "\<forall>y\<in>set (drop m xs). before f ?k y"
    using sw k unfolding sorted_wrt_append by blast
  have t: "\<forall>y\<in>set (take m xs). \<not> before f ?k y"
  proof
    fix y assume "y \<in> set (take m xs)"
    then obtain i where i: "i < m" "i < length xs" "y = xs ! i"
      by (auto simp: in_set_conv_nth)
    show "\<not> before f ?k y"
    proof (cases "i = m - 1")
      case True
      with i show ?thesis using before_asym by blast
    next
      case False
      with i m have "i < m - 1" "m - 1 < length xs" by simp_all
      then have "before f (xs ! i) ?k" using s by (simp add: sorted_wrt_nth_less)
      with i show ?thesis using before_asym by blast
    qed
  qed
  have "filter (before f ?k) xs = filter (before f ?k) (take m xs) @ filter (before f ?k) (drop m xs)"
    by (metis x filter_append)
  also have "\<dots> = drop m xs" using d t by simp
  finally show ?thesis .
qed

lemma sorted_wrt_scan:
  assumes "sorted ks" "distinct ks"
  shows "sorted_wrt (before forward) (scan_from forward esk ks)"
proof -
  have "sorted_wrt (<) ks" using assms by (simp add: strict_sorted_iff)
  then have "sorted_wrt (before forward) (if forward then ks else rev ks)"
    by (cases forward) (simp_all add: before_def [abs_def] sorted_wrt_rev)
  then show ?thesis unfolding scan_from_def by (rule sorted_wrt_filter)
qed

lemma scan_from_last:
  assumes ks: "sorted ks" "distinct ks"
    and m: "0 < m" "m \<le> length (scan_from forward esk ks)"
  shows "scan_from forward (Some (last (take m (scan_from forward esk ks)))) ks
           = drop m (scan_from forward esk ks)"
proof -
  define rest where "rest = scan_from forward esk ks"
  define ord where "ord = (if forward then ks else rev ks)"
  define k where "k = last (take m rest)"
  have r: "rest = filter (after forward esk) ord"
    by (simp add: rest_def ord_def scan_from_def)
  have kn: "k = rest ! (m - 1)"
    unfolding k_def using m [folded rest_def] by (rule last_take)
  then have "k \<in> set rest" using m [folded rest_def] by simp
  then have a: "after forward esk k" by (simp add: r)
  have imp: "before forward k s \<Longrightarrow> after forward esk s" for s
    using after_trans [OF a, of s] by (simp add: after_Some)
  have "scan_from forward (Some k) ks = filter (before forward k) ord"
    by (simp add: scan_from_def ord_def after_Some [abs_def])
  also have "\<dots> = filter (before forward k) rest"
    unfolding r filter_filter using imp by (intro filter_cong) auto
  also have "\<dots> = drop m rest"
  proof -
    have "sorted_wrt (before forward) rest"
      unfolding rest_def using ks by (rule sorted_wrt_scan)
    then show ?thesis
      unfolding kn using m [folded rest_def] by (rule sorted_wrt_filter_from)
  qed
  finally show ?thesis by (simp add: k_def rest_def)
qed

lemma page_items_append:
  "page_items t pk flt (a @ b) = page_items t pk flt a @ page_items t pk flt b"
  by (simp add: page_items_def map_filter_def)

lemma length_page_items:
  "set seen \<subseteq> set (part_keys t pk lo hi) \<Longrightarrow> length (page_items t pk (\<lambda>m. True) seen) = length seen"
proof (induction seen)
  case Nil
  then show ?case by (simp add: page_items_def map_filter_def)
next
  case (Cons a seen)
  then have "(pk, a) \<in> fst ` set t" by (simp add: set_part_keys)
  then have "map_of t (pk, a) \<noteq> None" by (simp add: map_of_eq_None_iff)
  then obtain m where "map_of t (pk, a) = Some m" by blast
  with Cons show ?case by (simp add: page_items_def map_filter_def)
qed

lemma scan_subset: "set (take n (scan_from forward esk ks)) \<subseteq> set ks"
  using set_take_subset [of n "scan_from forward esk ks"] by (auto simp: set_scan_from)

text \<open>The items a range scan answers: the first \<open>count\<close> keys of the range in the
  direction of the scan.\<close>

definition range_items ::
  "table \<Rightarrow> string \<Rightarrow> XID \<Rightarrow> XID \<Rightarrow> bool \<Rightarrow> string option \<Rightarrow> int \<Rightarrow> StreamItem list" where
  "range_items t key lo hi forward esk count =
     map parseStreamItem
       (page_items t key (\<lambda>m. True)
          (take (nat count) (scan_from forward esk (part_keys t key lo hi))))"

lemma xRange_loop_quiet:
  assumes "quiet w" and "lo \<le> hi"
  shows "xRange_loop w key lo hi forward esk count acc =
           ((acc @ range_items (tbl w) key lo hi forward esk count, None), w)"
  using assms
proof (induction w key lo hi forward esk count acc rule: xRange_loop.induct)
  case (1 w key lo hi forward esk count acc)
  let ?t = "tbl w"
  let ?ks = "part_keys ?t key lo hi"
  let ?rest = "scan_from forward esk ?ks"
  let ?n = "min (nat count) (max 1 (page w))"
  let ?seen = "take ?n ?rest"
  let ?items = "page_items ?t key (\<lambda>m. True) ?seen"
  show ?case
  proof (cases "count > 0")
    case False
    then show ?thesis
      by (simp add: xRange_loop.simps [of w] range_items_def page_items_def map_filter_def)
  next
    case True
    then have n: "0 < ?n" by simp
    have len: "length ?items = length ?seen"
      by (rule length_page_items [of _ _ _ lo hi]) (rule scan_subset)
    let ?more = "?n < length ?rest \<or> Some count = Some (int (length ?seen))"
    have q: "Query w key lo hi forward (Some count) (\<lambda>m. True) esk =
               (Inr (?items, if ?more then Some (last ?seen) else None), w)"
    proof -
      have "\<not> hi < lo" using "1.prems"(2) by (simp add: not_less)
      then show ?thesis
        using "1.prems"(1) True by (simp add: Query_quiet query_page_def Let_def)
    qed
    show ?thesis
    proof (cases ?more)
      case False
      then have "\<not> ?n < length ?rest" by blast
      then have le: "length ?rest \<le> ?n" by (rule leI)
      have "?n \<le> nat count" by (rule min.cobounded1)
      with le have "length ?rest \<le> nat count" by (rule order_trans)
      then have "take (nat count) ?rest = ?rest" by (rule take_all)
      moreover have "?seen = ?rest" using le by (rule take_all)
      ultimately have "take (nat count) ?rest = ?seen" by simp
      with False True q show ?thesis
        by (simp add: xRange_loop.simps [of w] range_items_def)
    next
      case more: True
      let ?k = "last ?seen"
      let ?m = "length ?seen"
      have m: "0 < ?m" "?m \<le> length ?rest"
      proof -
        have "?rest \<noteq> []" using more True by auto
        with n show "0 < ?m" by simp
        show "?m \<le> length ?rest" by simp
      qed
      have mc: "?m \<le> nat count" by simp
      have sk: "scan_from forward (Some ?k) ?ks = drop ?m ?rest"
      proof -
        have "take ?m ?rest = ?seen" by (simp add: take_min_length)
        then show ?thesis
          using scan_from_last [OF sorted_part_keys distinct_part_keys m]
          by simp
      qed
      have IH: "xRange_loop w key lo hi forward (Some ?k) (count - int (length ?items))
                  (acc @ map parseStreamItem ?items) =
                ((acc @ map parseStreamItem ?items @
                    range_items ?t key lo hi forward (Some ?k) (count - int (length ?items)), None), w)"
        using "1.IH" [OF True q [symmetric] refl refl, of ?k] more "1.prems" by simp
      have tk: "take (nat count) ?rest = ?seen @ take (nat count - ?m) (drop ?m ?rest)"
      proof -
        have "take (?m + (nat count - ?m)) ?rest = take ?m ?rest @ take (nat count - ?m) (drop ?m ?rest)"
          by (rule take_add)
        moreover have "take ?m ?rest = ?seen" by (simp add: take_min_length)
        moreover have "?m + (nat count - ?m) = nat count" using mc by (rule le_add_diff_inverse)
        ultimately show ?thesis by (simp only:)
      qed
      have nm: "nat (count - int (length ?items)) = nat count - ?m"
        unfolding len by (rule nat_minus_int)
      have "range_items ?t key lo hi forward esk count =
          map parseStreamItem (page_items ?t key (\<lambda>m. True) (take (nat count) ?rest))"
        by (simp only: range_items_def)
      also have "\<dots> = map parseStreamItem ?items @
          map parseStreamItem (page_items ?t key (\<lambda>m. True) (take (nat count - ?m) (drop ?m ?rest)))"
        by (simp only: tk page_items_append map_append)
      also have "map parseStreamItem (page_items ?t key (\<lambda>m. True) (take (nat count - ?m) (drop ?m ?rest)))
          = range_items ?t key lo hi forward (Some ?k) (count - int (length ?items))"
        by (simp only: range_items_def sk nm)
      finally have "range_items ?t key lo hi forward esk count =
          map parseStreamItem ?items @ range_items ?t key lo hi forward (Some ?k) (count - int (length ?items))" .
      with more True q IH show ?thesis
        by (simp add: xRange_loop.simps [of w key lo hi forward esk])
    qed
  qed
qed

lemma XRANGE_quiet:
  "quiet w \<Longrightarrow> lo \<le> hi \<Longrightarrow>
   XRANGE w key lo hi count = ((range_items (tbl w) key lo hi True None count, None), w)"
  by (simp add: XRANGE_def xRange_def xRange_loop_quiet)

subsection \<open>Deleting a list of items\<close>

definition delete_all :: "pkey list \<Rightarrow> table \<Rightarrow> table" where
  "delete_all ks t = fold AList.delete ks t"

lemma delete_all_Nil [simp]: "delete_all [] t = t"
  by (simp add: delete_all_def)

lemma delete_all_Cons [simp]: "delete_all (k # ks) t = delete_all ks (AList.delete k t)"
  by (simp add: delete_all_def)

lemma delete_all_append: "delete_all (a @ b) t = delete_all b (delete_all a t)"
  by (simp add: delete_all_def)

lemma map_of_delete_all: "map_of (delete_all ks t) k = (if k \<in> set ks then None else map_of t k)"
  by (induction ks arbitrary: t) (auto simp: delete_conv')

lemma keys_delete_all: "fst ` set (delete_all ks t) = fst ` set t - set ks"
proof -
  have "dom (map_of (delete_all ks t)) = dom (map_of t) - set ks"
    by (auto simp: map_of_delete_all dom_def)
  then show ?thesis by (simp add: dom_map_of_conv_image_fst)
qed

text \<open>The IDs a loop of deletions reports: those that were there when their turn came.\<close>

fun reported :: "table \<Rightarrow> string \<Rightarrow> XID list \<Rightarrow> XID list" where
  "reported t pk [] = []"
| "reported t pk (xid # ids) =
     (if map_of t (pk, xid) \<noteq> None then [xid] else []) @ reported (AList.delete (pk, xid) t) pk ids"

lemma reported_distinct:
  "distinct ids \<Longrightarrow> reported t pk ids = filter (\<lambda>xid. map_of t (pk, xid) \<noteq> None) ids"
proof (induction ids arbitrary: t)
  case Nil
  show ?case by simp
next
  case (Cons a ids)
  have "filter (\<lambda>xid. map_of (AList.delete (pk, a) t) (pk, xid) \<noteq> None) ids
        = filter (\<lambda>xid. map_of t (pk, xid) \<noteq> None) ids"
    using Cons.prems by (intro filter_cong) (auto simp: delete_conv')
  with Cons show ?case by simp
qed

lemma set_reported: "set (reported t pk ids) = {xid \<in> set ids. map_of t (pk, xid) \<noteq> None}"
proof (induction ids arbitrary: t)
  case Nil
  show ?case by simp
next
  case (Cons a ids)
  show ?case by (auto simp: Cons delete_conv')
qed

lemma XDEL_loop_quiet:
  "quiet w \<Longrightarrow> XDEL_loop w key ids acc =
     ((acc @ reported (tbl w) key ids, None), w\<lparr>tbl := delete_all (map (Pair key) ids) (tbl w)\<rparr>)"
  by (induction ids arbitrary: w acc) (simp_all add: DeleteItem_quiet)

lemma XDEL_quiet:
  "quiet w \<Longrightarrow> XDEL w key ids =
     ((reported (tbl w) key ids, None), w\<lparr>tbl := delete_all (map (Pair key) ids) (tbl w)\<rparr>)"
  by (simp add: XDEL_def XDEL_loop_quiet)

lemma XACK_loop_quiet:
  "quiet w \<Longrightarrow> XACK_loop w key grp ids acc =
     ((acc @ reported (tbl w) (xGroupKey key grp) ids, None),
      w\<lparr>tbl := delete_all (map (Pair (xGroupKey key grp)) ids) (tbl w)\<rparr>)"
  by (induction ids arbitrary: w acc) (simp_all add: DeleteItem_quiet)

lemma XACK_loop_append:
  "XACK_loop w key grp (a @ b) acc =
     (case XACK_loop w key grp a acc of
        ((acc', None), w1) \<Rightarrow> XACK_loop w1 key grp b acc'
      | ((acc', Some e), w1) \<Rightarrow> ((acc', Some e), w1))"
  by (induction a arbitrary: w acc) (auto split: prod.splits sum.splits option.splits)

lemma DeleteItem_fault:
  "env w = Fault e # es \<Longrightarrow> DeleteItem w k = (Inl (StoreError e), w\<lparr>env := es\<rparr>)"
  by (simp add: DeleteItem_def arrive_def)

subsection \<open>Fetching one item\<close>

lemma part_keys_single:
  "part_keys t pk xid xid = (if (pk, xid) \<in> fst ` set t then [xid] else [])"
proof -
  let ?ks = "part_keys t pk xid xid"
  have s: "set ?ks = (if (pk, xid) \<in> fst ` set t then {xid} else {})"
    by (auto simp: set_part_keys)
  show ?thesis
  proof (cases "(pk, xid) \<in> fst ` set t")
    case False
    with s show ?thesis by simp
  next
    case True
    with s have s1: "set ?ks = {xid}" by simp
    have "length ?ks = card (set ?ks)" by (simp add: distinct_card)
    with s1 have "length ?ks = 1" by simp
    then obtain y where "?ks = [y]" by (cases ?ks) auto
    with s1 True show ?thesis by simp
  qed
qed

definition stream_item :: "table \<Rightarrow> string \<Rightarrow> XID \<Rightarrow> StreamItem list" where
  "stream_item t key xid =
     (case map_of t (key, xid) of None \<Rightarrow> [] | Some m \<Rightarrow> [parseStreamItem (xid, m)])"

lemma range_items_single:
  "range_items t key xid xid True None 1 = stream_item t key xid"
proof (cases "map_of t (key, xid)")
  case None
  then have "(key, xid) \<notin> fst ` set t" by (simp add: map_of_eq_None_iff)
  then show ?thesis
    using None by (simp add: range_items_def part_keys_single scan_from_def stream_item_def
        page_items_def map_filter_def)
next
  case (Some m)
  then have "(key, xid) \<in> fst ` set t" using map_of_eq_None_iff [of t "(key, xid)"] by auto
  then show ?thesis
    using Some by (simp add: range_items_def part_keys_single scan_from_def stream_item_def
        page_items_def map_filter_def)
qed

lemma XRANGE_single:
  "quiet w \<Longrightarrow> XRANGE w key xid xid 1 = ((stream_item (tbl w) key xid, None), w)"
  by (simp add: XRANGE_quiet range_items_single)

subsection \<open>One step of XCLAIM\<close>

definition last_delivered :: "table \<Rightarrow> pkey \<Rightarrow> int option" where
  "last_delivered t k =
     (case map_of t k of
        None \<Rightarrow> None
      | Some m \<Rightarrow> (case m lastDeliveryTimestampKey of Some (NumV l) \<Rightarrow> Some l | _ \<Rightarrow> None))"

definition claimed :: "attrs \<Rightarrow> int64 \<Rightarrow> string \<Rightarrow> attrs" where
  "claimed m t consumer =
     m(lastDeliveryTimestampKey \<mapsto> NumV (sint t), deliveryCountKey \<mapsto> NumV 0,
       consumerKey \<mapsto> StrV consumer)"

lemma attr_names_distinct [simp]:
  "lastDeliveryTimestampKey \<noteq> partitionKey" "lastDeliveryTimestampKey \<noteq> sortKey"
  "lastDeliveryTimestampKey \<noteq> deliveryCountKey" "lastDeliveryTimestampKey \<noteq> consumerKey"
  "deliveryCountKey \<noteq> consumerKey" "deliveryCountKey \<noteq> lastDeliveryTimestampKey"
  "consumerKey \<noteq> lastDeliveryTimestampKey" "consumerKey \<noteq> deliveryCountKey"
  "consumerKey \<noteq> partitionKey" "consumerKey \<noteq> sortKey"
  by (simp_all add: lastDeliveryTimestampKey_def partitionKey_def sortKey_def deliveryCountKey_def
      consumerKey_def)

definition claimable :: "table \<Rightarrow> pkey \<Rightarrow> int \<Rightarrow> bool" where
  "claimable t k b = (case last_delivered t k of None \<Rightarrow> False | Some l \<Rightarrow> l \<le> b)"

lemma claim_conditions:
  "list_all (holds k (map_of t k))
     [CondExists partitionKey, CondLE lastDeliveryTimestampKey (NumV b)]
   \<longleftrightarrow> claimable t k b"
proof (cases "map_of t k")
  case None
  then show ?thesis by (simp add: attr_of_def last_delivered_def claimable_def)
next
  case (Some m)
  show ?thesis
  proof (cases "m lastDeliveryTimestampKey")
    case None
    with Some show ?thesis by (simp add: attr_of_def last_delivered_def claimable_def)
  next
    case s: (Some v)
    with Some show ?thesis by (cases v) (simp_all add: attr_of_def last_delivered_def claimable_def)
  qed
qed

lemma claim_update:
  "update_item t k
     [CondExists partitionKey, CondLE lastDeliveryTimestampKey (NumV b)]
     [SET lastDeliveryTimestampKey (NumV (sint n)), SET deliveryCountKey (NumV 0),
      SET consumerKey (StrV consumer)] =
   (if claimable t k b
    then Inr (AList.update k (claimed (item_or_empty t k) n consumer) t)
    else Inl ConditionFailed)"
  unfolding update_item_def claim_conditions
  by (simp add: write_upds_def claimed_def)

lemma xGroupKey_neq: "key \<noteq> xGroupKey key grp"
proof
  assume "key = xGroupKey key grp"
  then have "length key = length (xGroupKey key grp)" by (rule arg_cong)
  then show False by (simp add: xGroupKey_def)
qed

lemma stream_item_other [simp]:
  "stream_item (AList.update (xGroupKey key grp, k) m t) key xid = stream_item t key xid"
  using xGroupKey_neq [of key grp] by (simp add: stream_item_def update_conv')

lemma XCLAIM_step:
  assumes "quiet w"
  shows "XCLAIM_loop w key grp consumer ldb (xid # ids) items =
    (if claimable (tbl w) (xGroupKey key grp, xid) (sint ldb)
     then
       (let w' = w\<lparr>tbl := AList.update (xGroupKey key grp, xid)
                    (claimed (item_or_empty (tbl w) (xGroupKey key grp, xid)) (now w) consumer) (tbl w)\<rparr>
        in case stream_item (tbl w) key xid of
             [] \<Rightarrow> ((items, Some (CouldNotLoadStreamItem None)), w')
           | f # fs \<Rightarrow> XCLAIM_loop w' key grp consumer ldb ids (items @ [f]))
     else XCLAIM_loop w key grp consumer ldb ids items)"
  using assms
  by (simp add: UpdateItem_quiet claim_update XRANGE_single conditionFailureError_def Let_def
      split: list.split)

lemma XCLAIM_loop_append:
  "XCLAIM_loop w key grp consumer ldb (a @ b) items =
     (case XCLAIM_loop w key grp consumer ldb a items of
        ((items', None), w1) \<Rightarrow> XCLAIM_loop w1 key grp consumer ldb b items'
      | ((items', Some e), w1) \<Rightarrow> ((items', Some e), w1))"
proof (induction a arbitrary: w items)
  case Nil
  show ?case by simp
next
  case (Cons x a)
  show ?case
    by (simp add: Cons split: prod.splits sum.splits option.splits list.splits)
qed

declare XCLAIM_loop.simps(2) [simp del]

subsection \<open>XTRIM of a client that is alone\<close>

lemma XStart_le_XEnd: "XStart \<le> XEnd"
  by (simp add: XStart_def XEnd_def)

lemma trim_page_result:
  "\<exists>nc'. trim_page items nc ids = (ids @ drop (unat nc) (map fst items), nc') \<and>
         unat nc' = unat nc - length items"
proof (induction items arbitrary: nc ids)
  case Nil
  show ?case by simp
next
  case (Cons item items)
  show ?case
  proof (cases "nc = 0")
    case True
    from Cons [of 0 "ids @ [fst item]"] True show ?thesis by auto
  next
    case False
    then have u: "unat (nc - 1) = unat nc - 1" by (rule unat_minus_one)
    from False have p: "0 < unat nc" by (simp add: unat_gt_0)
    then have d: "drop (unat nc) (fst item # map fst items) = drop (unat nc - 1) (map fst items)"
      by (cases "unat nc") simp_all
    from Cons [of "nc - 1" ids] obtain nc' where
      "trim_page items (nc - 1) ids = (ids @ drop (unat (nc - 1)) (map fst items), nc')"
      "unat nc' = unat (nc - 1) - length items" by blast
    with False u d show ?thesis by simp
  qed
qed

lemma map_fst_page_items:
  "set seen \<subseteq> set (part_keys t pk lo hi) \<Longrightarrow> map fst (page_items t pk (\<lambda>m. True) seen) = seen"
proof (induction seen)
  case Nil
  then show ?case by (simp add: page_items_def map_filter_def)
next
  case (Cons a seen)
  then have "(pk, a) \<in> fst ` set t" by (simp add: set_part_keys)
  then have "map_of t (pk, a) \<noteq> None" by (simp add: map_of_eq_None_iff)
  then obtain m where m: "map_of t (pk, a) = Some m" by blast
  have "page_items t pk (\<lambda>m. True) (a # seen) = (a, m) # page_items t pk (\<lambda>m. True) seen"
    using m by (simp add: page_items_def map_filter_def)
  with Cons show ?case by simp
qed

lemma part_keys_delete_all:
  "part_keys (delete_all (map (Pair pk) ds) t) pk lo hi
     = filter (\<lambda>s. s \<notin> set ds) (part_keys t pk lo hi)"
proof (rule sorted_distinct_set_unique)
  show "sorted (part_keys (delete_all (map (Pair pk) ds) t) pk lo hi)" by simp
  show "distinct (part_keys (delete_all (map (Pair pk) ds) t) pk lo hi)" by simp
  show "sorted (filter (\<lambda>s. s \<notin> set ds) (part_keys t pk lo hi))"
    by (rule sorted_wrt_filter) simp
  show "distinct (filter (\<lambda>s. s \<notin> set ds) (part_keys t pk lo hi))" by simp
  show "set (part_keys (delete_all (map (Pair pk) ds) t) pk lo hi)
        = set (filter (\<lambda>s. s \<notin> set ds) (part_keys t pk lo hi))"
    by (auto simp: set_part_keys keys_delete_all)
qed

text \<open>Deleting keys that the scan has passed does not change what is left to scan.\<close>

lemma scan_from_after_delete:
  assumes m: "0 < m" "m \<le> length (scan_from forward esk (part_keys t pk lo hi))"
    and ds: "set ds \<subseteq> set (take m (scan_from forward esk (part_keys t pk lo hi)))"
  shows "scan_from forward (Some (last (take m (scan_from forward esk (part_keys t pk lo hi)))))
           (part_keys (delete_all (map (Pair pk) ds) t) pk lo hi)
         = drop m (scan_from forward esk (part_keys t pk lo hi))"
proof -
  define ks where "ks = part_keys t pk lo hi"
  define rest where "rest = scan_from forward esk ks"
  define k where "k = last (take m rest)"
  have sd: "sorted ks" "distinct ks" by (simp_all add: ks_def)
  have l: "scan_from forward (Some k) ks = drop m rest"
    unfolding k_def rest_def using sd m [folded ks_def] by (rule scan_from_last)
  have dr: "distinct rest" unfolding rest_def using sd(2) by simp
  have no: "\<not> after forward (Some k) s" if "s \<in> set ds" for s
  proof
    assume a: "after forward (Some k) s"
    from that ds have t: "s \<in> set (take m rest)" by (auto simp: rest_def ks_def)
    then have "s \<in> set ks" using scan_subset [of m forward esk ks] by (auto simp: rest_def)
    with a have "s \<in> set (scan_from forward (Some k) ks)" by (simp add: set_scan_from)
    then have "s \<in> set (drop m rest)" by (simp add: l)
    moreover have "set (take m rest) \<inter> set (drop m rest) = {}"
      using dr by (metis append_take_drop_id distinct_append)
    ultimately show False using t by blast
  qed
  have "scan_from forward (Some k) (filter (\<lambda>s. s \<notin> set ds) ks) = scan_from forward (Some k) ks"
    unfolding scan_from_def using no
    by (cases forward) (auto simp: rev_filter [symmetric] intro!: filter_cong)
  then show ?thesis
    using l by (simp add: part_keys_delete_all ks_def rest_def k_def)
qed

definition trimmed :: "table \<Rightarrow> string \<Rightarrow> string option \<Rightarrow> 32 word \<Rightarrow> XID list" where
  "trimmed t key esk newCount =
     drop (unat newCount) (scan_from False esk (part_keys t key XStart XEnd))"

lemma XTRIM_loop_quiet:
  assumes "quiet w"
  shows "XTRIM_loop w key esk nc dc =
     ((dc + word_of_nat (length (trimmed (tbl w) key esk nc)), None),
      w\<lparr>tbl := delete_all (map (Pair key) (trimmed (tbl w) key esk nc)) (tbl w)\<rparr>)"
  using assms
proof (induction "length (scan_from False esk (part_keys (tbl w) key XStart XEnd))"
    arbitrary: w esk nc dc rule: less_induct)
  case less
  define t where "t = tbl w"
  define rest where "rest = scan_from False esk (part_keys t key XStart XEnd)"
  define n where "n = max 1 (page w)"
  define seen where "seen = take n rest"
  define items where "items = page_items t key (\<lambda>m. True) seen"
  define ids where "ids = drop (unat nc) seen"
  have n: "0 < n" by (simp add: n_def)
  have sub: "set seen \<subseteq> set (part_keys t key XStart XEnd)"
    unfolding seen_def rest_def by (rule scan_subset)
  have fi: "map fst items = seen" unfolding items_def using sub by (rule map_fst_page_items)
  then have li: "length items = length seen" by (metis length_map)
  obtain nc' where tp: "trim_page items nc [] = (ids, nc')" and nc': "unat nc' = unat nc - length seen"
    using trim_page_result [of items nc "[]"] by (auto simp: fi ids_def li)
  have q: "Query w key XStart XEnd False None (\<lambda>m. True) esk =
             (Inr (items, if n < length rest then Some (last seen) else None), w)"
    using less.prems XStart_le_XEnd
    by (simp add: Query_quiet query_page_def Let_def not_less t_def rest_def n_def seen_def items_def)
  define w2 where "w2 = w\<lparr>tbl := delete_all (map (Pair key) ids) t\<rparr>"
  have q2: "quiet w2" using less.prems by (simp add: w2_def)
  have x: "XDEL w key ids = ((reported t key ids, None), w2)"
    using less.prems by (simp add: XDEL_quiet w2_def t_def)
  have w2_same: "ids = [] \<Longrightarrow> w2 = w" by (simp add: w2_def t_def)
  have step: "XTRIM_loop w key esk nc dc =
      (if n < length rest
       then XTRIM_loop w2 key (Some (last seen)) nc' (dc + word_of_nat (length ids))
       else ((dc + word_of_nat (length ids), None), w2))"
    using w2_same
    by (subst XTRIM_loop.simps) (auto simp: q tp x)
  have split: "trimmed t key esk nc = ids @ drop (unat nc - length seen) (drop n rest)"
  proof -
    have "rest = seen @ drop n rest" by (simp add: seen_def)
    then have "drop (unat nc) rest = drop (unat nc) (seen @ drop n rest)" by simp
    then show ?thesis by (simp add: trimmed_def rest_def [symmetric] ids_def)
  qed
  show ?case
  proof (cases "n < length rest")
    case False
    then have "drop n rest = []" by simp
    with split have "trimmed t key esk nc = ids" by simp
    with False step show ?thesis by (simp add: w2_def t_def)
  next
    case True
    then have m: "0 < n" "n \<le> length rest" using n by simp_all
    have ls: "length seen = n" using True by (simp add: seen_def)
    have dsub: "set ids \<subseteq> set (take n rest)"
      unfolding ids_def seen_def by (rule set_drop_subset)
    have sc: "scan_from False (Some (last seen)) (part_keys (tbl w2) key XStart XEnd) = drop n rest"
      using scan_from_after_delete [OF m [unfolded rest_def] dsub [unfolded rest_def]]
      by (simp add: w2_def seen_def rest_def)
    then have tr2: "trimmed (tbl w2) key (Some (last seen)) nc' = drop (unat nc - length seen) (drop n rest)"
      by (simp add: trimmed_def nc')
    have "length (scan_from False (Some (last seen)) (part_keys (tbl w2) key XStart XEnd))
            < length (scan_from False esk (part_keys (tbl w) key XStart XEnd))"
      using m by (simp add: sc rest_def t_def)
    from less.hyps [OF this q2, of nc' "dc + word_of_nat (length ids)"]
    have rec: "XTRIM_loop w2 key (Some (last seen)) nc' (dc + word_of_nat (length ids)) =
       ((dc + word_of_nat (length ids) + word_of_nat (length (drop (unat nc - length seen) (drop n rest))), None),
        w2\<lparr>tbl := delete_all (map (Pair key) (drop (unat nc - length seen) (drop n rest))) (tbl w2)\<rparr>)"
      unfolding tr2 .
    define rem where "rem = drop (unat nc - length seen) (drop n rest)"
    have tw: "w2\<lparr>tbl := delete_all (map (Pair key) rem) (tbl w2)\<rparr>
              = w\<lparr>tbl := delete_all (map (Pair key) (ids @ rem)) t\<rparr>"
      by (simp add: w2_def delete_all_append)
    have cnt: "dc + word_of_nat (length ids) + word_of_nat (length rem)
               = dc + word_of_nat (length (ids @ rem))"
      by (simp add: add.assoc)
    have "XTRIM_loop w key esk nc dc =
       ((dc + word_of_nat (length (ids @ rem)), None),
        w\<lparr>tbl := delete_all (map (Pair key) (ids @ rem)) t\<rparr>)"
      using True step rec [folded rem_def] by (simp only: tw cnt if_True)
    then show ?thesis
      using split by (simp only: rem_def t_def)
  qed
qed

lemma XTRIM_quiet:
  "quiet w \<Longrightarrow> XTRIM w key newCount =
     ((word_of_nat (length (trimmed (tbl w) key None newCount)), None),
      w\<lparr>tbl := delete_all (map (Pair key) (trimmed (tbl w) key None newCount)) (tbl w)\<rparr>)"
  by (simp add: XTRIM_def XTRIM_loop_quiet)

subsection \<open>XIDs lie between the sentinels\<close>

lemma pointwise_le_imp_le:
  "list_all2 (\<le>) xs ys \<Longrightarrow> xs \<le> ys" for xs ys :: "'a::linorder list"
  by (induction rule: list_all2_induct) auto

lemma digit_char_bounds: "d < 10 \<Longrightarrow> CHR ''0'' \<le> digit_char d \<and> digit_char d \<le> CHR ''9''"
  using is_digit_digit_char [of d] by (simp add: is_digit_def)

lemma fixed_le_nines: "list_all2 (\<le>) (fixed k n) (replicate k CHR ''9'')"
proof (induction k arbitrary: n)
  case 0
  show ?case by simp
next
  case (Suc k)
  have "list_all2 (\<le>) (fixed k (n div 10) @ [digit_char (n mod 10)]) (replicate k CHR ''9'' @ [CHR ''9''])"
    using Suc [of "n div 10"] digit_char_bounds [of "n mod 10"]
    by (intro list_all2_appendI) simp_all
  then show ?case by (simp add: replicate_append_same)
qed

lemma zeros_le_fixed: "list_all2 (\<le>) (replicate k CHR ''0'') (fixed k n)"
proof (induction k arbitrary: n)
  case 0
  show ?case by simp
next
  case (Suc k)
  have "list_all2 (\<le>) (replicate k CHR ''0'' @ [CHR ''0'']) (fixed k (n div 10) @ [digit_char (n mod 10)])"
    using Suc [of "n div 10"] digit_char_bounds [of "n mod 10"]
    by (intro list_all2_appendI) simp_all
  then show ?case by (simp add: replicate_append_same)
qed

lemma XEnd_nines: "XEnd = replicate 20 CHR ''9'' @ CHR ''-'' # replicate 20 CHR ''9''"
  by (simp add: XEnd_def replicate_num)

lemma XStart_zeros: "XStart = replicate 20 CHR ''0'' @ CHR ''-'' # replicate 20 CHR ''0''"
  by (simp add: XStart_def replicate_num)

lemma NewXID_le_XEnd: "NewXID t s \<le> XEnd"
proof (cases "0 \<le> sint t")
  case True
  have "list_all2 (\<le>) (fixed 20 (nat (sint t)) @ CHR ''-'' # fixed 20 (unat s))
          (replicate 20 CHR ''9'' @ CHR ''-'' # replicate 20 CHR ''9'')"
    by (intro list_all2_appendI) (simp_all add: fixed_le_nines)
  then show ?thesis
    unfolding XEnd_nines NewXID_valid [OF True] by (rule pointwise_le_imp_le)
next
  case False
  then have n: "sint t < 0" by simp
  have "- sint t < 10 ^ 19" using sint64_bounds(1) [of t] by simp
  with n have "NewXID t s = CHR ''-'' # fixed 19 (nat (- sint t)) @ CHR ''-'' # Sprintf_020d (uint s)"
    by (simp add: NewXID_def Sprintf_neg)
  then show ?thesis by (simp add: XEnd_def)
qed

lemma XStart_le_NewXID: "0 \<le> sint t \<Longrightarrow> XStart \<le> NewXID t s"
proof -
  assume v: "0 \<le> sint t"
  have "list_all2 (\<le>) (replicate 20 CHR ''0'' @ CHR ''-'' # replicate 20 CHR ''0'')
          (fixed 20 (nat (sint t)) @ CHR ''-'' # fixed 20 (unat s))"
    by (intro list_all2_appendI) (simp_all add: zeros_le_fixed)
  then show ?thesis
    unfolding XStart_zeros NewXID_valid [OF v] by (rule pointwise_le_imp_le)
qed

lemma NewXID_le:
  "0 \<le> sint ta \<Longrightarrow> 0 \<le> sint tb \<Longrightarrow>
   NewXID ta sa \<le> NewXID tb sb \<longleftrightarrow> \<not> pair_lt (tb, sb) (ta, sa)"
  using NewXID_less [of tb ta sb sa] by (simp add: not_less [symmetric])

text \<open>\<open>Time\<close> never answers a time before the epoch: the field it parses has no sign.\<close>

lemma Split_nonempty: "Split s sep \<noteq> []"
  by (cases s) (simp_all add: Let_def)

lemma hd_Split_no_sep: "sep \<notin> set (hd (Split s sep))"
  by (induction s) (auto simp: Let_def)

lemma ParseInt_unsigned:
  assumes "CHR ''-'' \<notin> set p"
  shows "0 \<le> fst (ParseInt p) \<and> fst (ParseInt p) < 2 ^ 63"
proof (cases "p = []")
  case True
  then show ?thesis by (simp add: ParseInt_def)
next
  case False
  with assms have "hd p \<noteq> CHR ''-''" by (cases p) auto
  with False show ?thesis by (auto simp: ParseInt_def Let_def)
qed

lemma Time_valid: "\<exists>t. Time xid = Return t \<and> 0 \<le> sint t"
proof -
  let ?p = "hd (Split xid CHR ''-'')"
  let ?v = "fst (ParseInt ?p)"
  have i: "index (Split xid CHR ''-'') 0 = Return ?p"
    using Split_nonempty [of xid "CHR ''-''"] by (simp add: index_def hd_conv_nth)
  have b: "0 \<le> ?v \<and> ?v < 2 ^ 63" by (rule ParseInt_unsigned) (rule hd_Split_no_sep)
  then have "sint (word_of_int ?v :: int64) = ?v"
    by (simp add: sint_sbintrunc' signed_take_bit_int_eq_self)
  with b i show ?thesis by (simp add: Time_def)
qed

lemma Next_valid:
  "Next xid = Return nx \<Longrightarrow> \<exists>t s. 0 \<le> sint t \<and> nx = NewXID t s"
  using Time_valid [of xid] by (auto simp: Next_def split: outcome.splits)

lemma Next_le_XEnd: "Next xid = Return nx \<Longrightarrow> nx \<le> XEnd"
  using Next_valid [of xid nx] NewXID_le_XEnd by auto

lemma Next_NewXID: "0 \<le> sint t \<Longrightarrow> Next (NewXID t s) = Return (NewXID t (s + 1))"
  by (simp add: Next_def Time_NewXID Seq_NewXID)

text \<open>The IDs of a stream, oldest first: the sort keys of its partition between \<open>XStart\<close>
  and \<open>XEnd\<close>, which is what every scan of the stream reads.\<close>

definition stream_ids :: "table \<Rightarrow> string \<Rightarrow> XID list" where
  "stream_ids t key = part_keys t key XStart XEnd"

subsection \<open>Streams of well-formed IDs\<close>

text \<open>An XID is well formed when decoding and encoding it again gives it back: it is
  \<open>NewXID\<close> of a time that is not before the epoch and of a sequence number.\<close>

definition well_formed :: "XID \<Rightarrow> bool" where
  "well_formed x =
     (case Time x of
        Panic \<Rightarrow> False
      | Return t \<Rightarrow> (case Seq x of Panic \<Rightarrow> False | Return s \<Rightarrow> x = NewXID t s))"

lemma well_formed_iff: "well_formed x \<longleftrightarrow> (\<exists>t s. 0 \<le> sint t \<and> x = NewXID t s)"
proof
  assume "well_formed x"
  then obtain t s where "Time x = Return t" "x = NewXID t s"
    by (auto simp: well_formed_def split: outcome.splits)
  moreover from Time_valid [of x] this(1) have "0 \<le> sint t" by auto
  ultimately show "\<exists>t s. 0 \<le> sint t \<and> x = NewXID t s" by blast
next
  assume "\<exists>t s. 0 \<le> sint t \<and> x = NewXID t s"
  then show "well_formed x" by (auto simp: well_formed_def Time_NewXID Seq_NewXID)
qed

lemma well_formed_NewXID [simp]: "0 \<le> sint t \<Longrightarrow> well_formed (NewXID t s)"
  by (auto simp: well_formed_iff)

definition stream_wf :: "table \<Rightarrow> string \<Rightarrow> bool" where
  "stream_wf t key = list_all (\<lambda>k. if fst k = key then well_formed (snd k) else True) (map fst t)"

lemma stream_wf_D: "stream_wf t key \<Longrightarrow> (key, sk) \<in> fst ` set t \<Longrightarrow> well_formed sk"
  by (force simp: stream_wf_def list_all_iff)

lemma uint_succ: "s + 1 \<noteq> 0 \<Longrightarrow> uint (s + 1) = uint s + 1" for s :: uint64
proof -
  assume n: "s + 1 \<noteq> 0"
  have p: "uint (s + 1) = (if uint s + uint (1 :: uint64) < 2 ^ LENGTH(64) then uint s + uint (1 :: uint64)
      else uint s + uint (1 :: uint64) - 2 ^ LENGTH(64))"
    by (rule uint_plus_if')
  show ?thesis
  proof (cases "uint s + 1 < 2 ^ 64")
    case True
    with p show ?thesis by simp
  next
    case False
    moreover have "uint s < 2 ^ 64" by (rule uint64_bound)
    ultimately have "uint s + 1 = 2 ^ 64" by simp
    with p have "uint (s + 1) = 0" by simp
    then have "s + 1 = 0" by (simp add: uint_0_iff)
    with n show ?thesis by simp
  qed
qed

lemma after_next:
  assumes "0 \<le> sint t" and "s + 1 \<noteq> 0" and "well_formed x"
  shows "NewXID t (s + 1) \<le> x \<longleftrightarrow> NewXID t s < x"
proof -
  from assms(3) obtain t' s' where x: "0 \<le> sint t'" "x = NewXID t' s'"
    by (auto simp: well_formed_iff)
  have e: "sint t' = sint t \<longleftrightarrow> t' = t" by (simp add: word_eq_iff_signed [where ?'a = int])
  have "\<not> pair_lt (t', s') (t, s + 1) \<longleftrightarrow> pair_lt (t, s) (t', s')"
    unfolding pair_lt_def fst_conv snd_conv uint_succ [OF assms(2)] using e by auto
  then show ?thesis
    by (simp add: x NewXID_le [OF assms(1) x(1)] NewXID_less [OF assms(1) x(1)])
qed

lemma part_keys_after:
  assumes "0 \<le> sint t0" and "s + 1 \<noteq> 0" and "stream_wf t key"
  shows "part_keys t key (NewXID t0 (s + 1)) XEnd
           = filter (\<lambda>x. NewXID t0 s < x) (stream_ids t key)"
proof (rule sorted_distinct_set_unique)
  show "sorted (part_keys t key (NewXID t0 (s + 1)) XEnd)" by simp
  show "distinct (part_keys t key (NewXID t0 (s + 1)) XEnd)" by simp
  show "sorted (filter (\<lambda>x. NewXID t0 s < x) (stream_ids t key))"
    unfolding stream_ids_def by (rule sorted_wrt_filter) simp
  show "distinct (filter (\<lambda>x. NewXID t0 s < x) (stream_ids t key))"
    by (simp add: stream_ids_def)
  show "set (part_keys t key (NewXID t0 (s + 1)) XEnd)
          = set (filter (\<lambda>x. NewXID t0 s < x) (stream_ids t key))"
  proof -
    have "NewXID t0 (s + 1) \<le> sk \<longleftrightarrow> XStart \<le> sk \<and> NewXID t0 s < sk"
      if "(key, sk) \<in> fst ` set t" for sk
    proof -
      from that assms(3) have wf: "well_formed sk" by (rule stream_wf_D [rotated])
      then have "XStart \<le> sk" by (auto simp: well_formed_iff XStart_le_NewXID)
      with after_next [OF assms(1,2) wf] show ?thesis by simp
    qed
    then show ?thesis by (auto simp: set_part_keys stream_ids_def)
  qed
qed

text \<open>The IDs of the items a range scan answers.\<close>

lemma ID_parseStreamItem [simp]: "ID (parseStreamItem item) = fst item"
  by (simp add: parseStreamItem_def)

lemma map_ID_range_items:
  "map ID (range_items t key lo hi forward esk count)
     = take (nat count) (scan_from forward esk (part_keys t key lo hi))"
proof -
  have "map fst (page_items t key (\<lambda>m. True) (take (nat count) (scan_from forward esk (part_keys t key lo hi))))
          = take (nat count) (scan_from forward esk (part_keys t key lo hi))"
    by (rule map_fst_page_items) (rule scan_subset)
  then show ?thesis by (simp add: range_items_def comp_def)
qed

lemma XREAD_quiet:
  assumes "quiet w" and "Next frm = Return nx"
  shows "XREAD w key frm count = Return ((range_items (tbl w) key nx XEnd True None count, None), w)"
  using assms Next_le_XEnd [OF assms(2)] by (simp add: XREAD_def XRANGE_quiet)

text \<open>Reading after a well-formed ID whose sequence number is not the last one: the
  first \<open>count\<close> IDs of the stream above it, oldest first.\<close>

lemma XREAD_wf:
  assumes "quiet w" and "0 \<le> sint t" and "s + 1 \<noteq> 0" and "stream_wf (tbl w) key"
  shows "\<exists>items. XREAD w key (NewXID t s) count = Return ((items, None), w) \<and>
           map ID items = take (nat count) (filter (\<lambda>x. NewXID t s < x) (stream_ids (tbl w) key))"
proof -
  have n: "Next (NewXID t s) = Return (NewXID t (s + 1))" using assms(2) by (rule Next_NewXID)
  show ?thesis
    unfolding XREAD_quiet [OF assms(1) n]
    by (simp add: map_ID_range_items scan_from_def part_keys_after [OF assms(2,3,4)])
qed

text \<open>Going on from the last ID read: what the first read answered and what is above its
  last ID make up, without overlap, what was above the first position.\<close>

lemma read_resume:
  assumes "read = take n (filter (\<lambda>x. frm < x) (stream_ids t key))" and "read \<noteq> []"
  shows "filter (\<lambda>x. frm < x) (stream_ids t key) = read @ filter (\<lambda>x. last read < x) (stream_ids t key)"
    and "last read \<notin> set (filter (\<lambda>x. last read < x) (stream_ids t key))"
proof -
  let ?ks = "stream_ids t key"
  let ?F = "filter (\<lambda>x. frm < x) ?ks"
  define m where "m = min n (length ?F)"
  have r: "read = take m ?F" by (simp add: assms(1) m_def min_def)
  have m: "0 < m" "m \<le> length ?F"
    using assms(2) by (auto simp: r m_def)
  have a: "after True (Some k) = (\<lambda>x. k < x)" for k by (rule ext) simp
  have F: "scan_from True (Some frm) ?ks = ?F" by (simp add: scan_from_def a)
  have sd: "sorted ?ks" "distinct ?ks" by (simp_all add: stream_ids_def)
  have "scan_from True (Some (last (take m (scan_from True (Some frm) ?ks)))) ?ks
          = drop m (scan_from True (Some frm) ?ks)"
    using sd m [folded F] by (rule scan_from_last)
  then have "filter (\<lambda>x. last read < x) ?ks = drop m ?F"
    by (simp add: F r scan_from_def a)
  then show "?F = read @ filter (\<lambda>x. last read < x) ?ks" by (simp add: r)
  show "last read \<notin> set (filter (\<lambda>x. last read < x) ?ks)" by simp
qed

subsection \<open>One pass of XREADGROUP by a client that is alone\<close>

text \<open>The cursor of a group as \<open>xGroupCursorGet\<close> reads it; the empty string when the group
  has none.\<close>

definition group_cursor :: "table \<Rightarrow> string \<Rightarrow> string \<Rightarrow> XID" where
  "group_cursor t key grp =
     ReturnValue_String (attr_of (xGroupCursorKey key grp) (map_of t (xGroupCursorKey key grp)) vk)"

definition push_cursor :: "table \<Rightarrow> string \<Rightarrow> string \<Rightarrow> XID \<Rightarrow> table" where
  "push_cursor t key grp x =
     AList.update (xGroupCursorKey key grp)
       ((item_or_empty t (xGroupCursorKey key grp))(vk \<mapsto> StrV x)) t"

lemma xGroupCursorGet_quiet:
  "quiet w \<Longrightarrow> xGroupCursorGet w key grp =
     (if group_cursor (tbl w) key grp = [] then Inl ErrXGroupNotInitialized
      else Inr (group_cursor (tbl w) key grp), w)"
  by (simp add: xGroupCursorGet_def GetItem_quiet group_cursor_def Let_def)

lemma cursor_holds:
  assumes "group_cursor t key grp \<noteq> []"
  shows "holds (xGroupCursorKey key grp) (map_of t (xGroupCursorKey key grp)) (CondLT vk (StrV x))
           \<longleftrightarrow> group_cursor t key grp < x"
proof -
  let ?a = "attr_of (xGroupCursorKey key grp) (map_of t (xGroupCursorKey key grp)) vk"
  from assms obtain c where "?a = Some (StrV c)"
    by (auto simp: group_cursor_def ReturnValue_String_def split: option.splits av.splits)
  then show ?thesis by (simp add: group_cursor_def ReturnValue_String_def)
qed

lemma group_cursor_push [simp]: "group_cursor (push_cursor t key grp x) key grp = x"
  by (simp add: group_cursor_def push_cursor_def update_conv' attr_of_def ReturnValue_String_def)

lemma cursor_above_XEnd: "XEnd < ''_redimo/cursor''"
  by (simp add: XEnd_def)

lemma cursor_key_neq: "x \<le> XEnd \<Longrightarrow> xGroupCursorKey key grp \<noteq> (xGroupKey key grp, x)"
  using cursor_above_XEnd by (auto simp: xGroupCursorKey_def)

text \<open>What the upsert of the pending entry makes of the entry that is there.\<close>

definition delivered :: "attrs \<Rightarrow> string \<Rightarrow> int64 \<Rightarrow> attrs option" where
  "delivered m consumer t =
     apply_upds
       [SET consumerKey (StrV consumer), SET lastDeliveryTimestampKey (NumV (sint t)),
        ADD deliveryCountKey 1] m"

lemma delivered_new:
  "delivered Map.empty consumer t
     = Some [consumerKey \<mapsto> StrV consumer, lastDeliveryTimestampKey \<mapsto> NumV (sint t),
             deliveryCountKey \<mapsto> NumV 1]"
  by (simp add: delivered_def)

lemma delivered_again:
  "m deliveryCountKey = Some (NumV d) \<Longrightarrow>
   delivered m consumer t
     = Some (m(consumerKey \<mapsto> StrV consumer, lastDeliveryTimestampKey \<mapsto> NumV (sint t),
               deliveryCountKey \<mapsto> NumV (d + 1)))"
  by (simp add: delivered_def)

lemma push_action [simp]:
  "action_key (xGroupCursorPushAction key grp x) = xGroupCursorKey key grp"
  "apply_action (xGroupCursorPushAction key grp x) t = Inr (push_cursor t key grp x)"
  by (simp_all add: xGroupCursorPushAction_def write_upds_def push_cursor_def)

lemma push_action_ok [simp]:
  "group_cursor t key grp \<noteq> [] \<Longrightarrow>
   action_ok t (xGroupCursorPushAction key grp x) \<longleftrightarrow> group_cursor t key grp < x"
  using cursor_holds [of t key grp x]
  by (simp add: xGroupCursorPushAction_def del: holds.simps)

lemma put_action [simp]:
  "action_key (toPutAction \<lparr>PendingID = x, Consumer = consumer, LastDelivered = n, DeliveryCount = d\<rparr> pk)
     = (pk, x)"
  "action_ok t (toPutAction \<lparr>PendingID = x, Consumer = consumer, LastDelivered = n, DeliveryCount = d\<rparr> pk)"
  "apply_action (toPutAction \<lparr>PendingID = x, Consumer = consumer, LastDelivered = n, DeliveryCount = d\<rparr> pk) t
     = (case delivered (item_or_empty t (pk, x)) consumer n of
          None \<Rightarrow> Inl (StoreError ''ValidationException'')
        | Some m \<Rightarrow> Inr (AList.update (pk, x) m t))"
  by (simp_all add: toPutAction_def write_upds_def delivered_def)

lemma item_or_empty_push:
  "k \<noteq> xGroupCursorKey key grp \<Longrightarrow> item_or_empty (push_cursor t key grp x) k = item_or_empty t k"
  by (simp add: push_cursor_def item_or_empty_other)

lemma transact_push:
  assumes "group_cursor t key grp \<noteq> []"
  shows "transact t [xGroupCursorPushAction key grp x] =
     (if group_cursor t key grp < x then Inr (push_cursor t key grp x) else Inl ConditionFailed)"
  using assms by (simp add: transact_def)

lemma transact_push_put:
  assumes "group_cursor t key grp \<noteq> []" and "x \<le> XEnd"
  shows "transact t
           [xGroupCursorPushAction key grp x,
            toPutAction \<lparr>PendingID = x, Consumer = consumer, LastDelivered = n, DeliveryCount = 0\<rparr>
              (xGroupKey key grp)] =
     (if group_cursor t key grp < x then
        (case delivered (item_or_empty t (xGroupKey key grp, x)) consumer n of
           None \<Rightarrow> Inl (StoreError ''ValidationException'')
         | Some m \<Rightarrow> Inr (AList.update (xGroupKey key grp, x) m (push_cursor t key grp x)))
      else Inl ConditionFailed)"
proof -
  have ne: "(xGroupKey key grp, x) \<noteq> xGroupCursorKey key grp"
    using cursor_key_neq [OF assms(2), of key grp] by simp
  show ?thesis
    using assms(1) ne by (simp add: transact_def item_or_empty_push split: option.split)
qed

text \<open>The next item after the cursor, as the pass finds it.\<close>

definition next_items :: "table \<Rightarrow> string \<Rightarrow> XID \<Rightarrow> StreamItem list" where
  "next_items t key nx = range_items t key nx XEnd True None 1"

lemma next_items_le_XEnd:
  assumes "next_items t key nx = item # others"
  shows "ID item \<le> XEnd"
proof -
  have "map ID (next_items t key nx) = take (nat 1) (scan_from True None (part_keys t key nx XEnd))"
    unfolding next_items_def by (rule map_ID_range_items)
  with assms have "ID item \<in> set (take (nat 1) (scan_from True None (part_keys t key nx XEnd)))"
    by (metis list.set_intros(1) list.simps(9))
  then have "ID item \<in> set (part_keys t key nx XEnd)"
    using scan_subset by blast
  then show ?thesis by (simp add: set_part_keys)
qed

lemma XREADGROUP_attempt_quiet:
  assumes "quiet w" and "group_cursor (tbl w) key grp \<noteq> []"
    and "Next (group_cursor (tbl w) key grp) = Return nx"
  shows "XREADGROUP_attempt w key grp consumer opt =
     (case next_items (tbl w) key nx of
        [] \<Rightarrow> Done (Return (([], None), w))
      | item # others \<Rightarrow>
          if group_cursor (tbl w) key grp < ID item then
            (if opt = XReadNew then
               (case delivered (item_or_empty (tbl w) (xGroupKey key grp, ID item)) consumer (now w) of
                  None \<Rightarrow> Done (Return ((item # others, Some (StoreError ''ValidationException'')), w))
                | Some m \<Rightarrow>
                    Done (Return ((item # others, None),
                      w\<lparr>tbl := AList.update (xGroupKey key grp, ID item) m
                                  (push_cursor (tbl w) key grp (ID item))\<rparr>)))
             else Done (Return ((item # others, None),
                    w\<lparr>tbl := push_cursor (tbl w) key grp (ID item)\<rparr>)))
          else Retry w)"
proof (cases "next_items (tbl w) key nx")
  case Nil
  with assms Next_le_XEnd [OF assms(3)] show ?thesis
    by (simp add: XREADGROUP_attempt_def xGroupCursorGet_quiet XRANGE_quiet next_items_def)
next
  case (Cons item others)
  note le = next_items_le_XEnd [OF Cons]
  show ?thesis
  proof (cases "opt = XReadNew")
    case True
    with Cons assms Next_le_XEnd [OF assms(3)] show ?thesis
      by (simp add: XREADGROUP_attempt_def xGroupCursorGet_quiet XRANGE_quiet next_items_def [symmetric]
          TransactWriteItems_quiet transact_push_put [OF assms(2) le] conditionFailureError_def
          split: option.split)
  next
    case False
    with Cons assms Next_le_XEnd [OF assms(3)] show ?thesis
      by (simp add: XREADGROUP_attempt_def xGroupCursorGet_quiet XRANGE_quiet next_items_def [symmetric]
          TransactWriteItems_quiet transact_push [OF assms(2)] conditionFailureError_def)
  qed
qed

lemma XREADGROUP_attempt_uninitialized:
  "quiet w \<Longrightarrow> group_cursor (tbl w) key grp = [] \<Longrightarrow>
   XREADGROUP_attempt w key grp consumer opt = Done (Return (([], Some ErrXGroupNotInitialized), w))"
  by (simp add: XREADGROUP_attempt_def xGroupCursorGet_quiet)

lemma XREADGROUP_Done:
  "opt \<noteq> XReadPending \<Longrightarrow> XREADGROUP_attempt w key grp consumer opt = Done r \<Longrightarrow>
   XREADGROUP w key grp consumer opt n = r"
  by (simp add: XREADGROUP_def XREADGROUP_loop.simps [of w])

lemma XREADGROUP_loop_Retry:
  "XREADGROUP_attempt w key grp consumer opt = Retry w' \<Longrightarrow> k < 5 \<Longrightarrow>
   XREADGROUP_loop w key grp consumer opt k = XREADGROUP_loop w' key grp consumer opt (Suc k)"
  by (simp add: XREADGROUP_loop.simps [of w])

lemma XREADGROUP_five_retries:
  assumes "opt \<noteq> XReadPending"
    and "XREADGROUP_attempt w0 key grp consumer opt = Retry w1"
    and "XREADGROUP_attempt w1 key grp consumer opt = Retry w2"
    and "XREADGROUP_attempt w2 key grp consumer opt = Retry w3"
    and "XREADGROUP_attempt w3 key grp consumer opt = Retry w4"
    and "XREADGROUP_attempt w4 key grp consumer opt = Retry w5"
  shows "XREADGROUP w0 key grp consumer opt n = Return (([], Some TooMuchContention), w5)"
proof -
  have "XREADGROUP w0 key grp consumer opt n = XREADGROUP_loop w0 key grp consumer opt 0"
    using assms(1) by (simp add: XREADGROUP_def)
  also have "\<dots> = XREADGROUP_loop w1 key grp consumer opt (Suc 0)"
    using assms(2) by (rule XREADGROUP_loop_Retry) simp
  also have "\<dots> = XREADGROUP_loop w2 key grp consumer opt (Suc (Suc 0))"
    using assms(3) by (rule XREADGROUP_loop_Retry) simp
  also have "\<dots> = XREADGROUP_loop w3 key grp consumer opt (Suc (Suc (Suc 0)))"
    using assms(4) by (rule XREADGROUP_loop_Retry) simp
  also have "\<dots> = XREADGROUP_loop w4 key grp consumer opt (Suc (Suc (Suc (Suc 0))))"
    using assms(5) by (rule XREADGROUP_loop_Retry) simp
  also have "\<dots> = XREADGROUP_loop w5 key grp consumer opt (Suc (Suc (Suc (Suc (Suc 0)))))"
    using assms(6) by (rule XREADGROUP_loop_Retry) simp
  also have "\<dots> = Return (([], Some TooMuchContention), w5)"
    by (simp add: XREADGROUP_loop.simps [of w5])
  finally show ?thesis .
qed

text \<open>A pass goes round again only when the transaction it submitted was refused for its
  condition.\<close>

lemma XREADGROUP_attempt_Retry:
  assumes "XREADGROUP_attempt w key grp consumer opt = Retry w'"
  shows "\<exists>w2 as. TransactWriteItems w2 as = (Some ConditionFailed, w')"
  using assms
  by (auto simp: XREADGROUP_attempt_def conditionFailureError_def
      split: prod.splits sum.splits outcome.splits list.splits if_splits option.splits)

lemma item_or_empty_Some: "map_of t k = Some m \<Longrightarrow> item_or_empty t k = m"
  by (simp add: item_or_empty_def)

lemma stream_item_Some:
  "map_of t (key, xid) = Some f \<Longrightarrow> stream_item t key xid = [parseStreamItem (xid, f)]"
  by (simp add: stream_item_def)

lemma stream_item_None: "map_of t (key, xid) = None \<Longrightarrow> stream_item t key xid = []"
  by (simp add: stream_item_def)

lemma XGROUP_quiet:
  "quiet w \<Longrightarrow> XGROUP w key grp start = (None, w\<lparr>tbl := push_cursor (tbl w) key grp start\<rparr>)"
  by (simp add: XGROUP_def xGroupCursorSet_def HSET_def UpdateItem_quiet update_item_def
      write_upds_def push_cursor_def xGroupCursorKey_def)

lemma next_items_wf:
  assumes "0 \<le> sint t0" and "s + 1 \<noteq> 0" and "stream_wf t key"
  shows "next_items t key (NewXID t0 (s + 1)) =
     (case filter (\<lambda>x. NewXID t0 s < x) (stream_ids t key) of
        [] \<Rightarrow> []
      | x # xs \<Rightarrow> stream_item t key x)"
proof (cases "filter (\<lambda>x. NewXID t0 s < x) (stream_ids t key)")
  case Nil
  then show ?thesis
    by (simp add: next_items_def range_items_def scan_from_def part_keys_after [OF assms]
        page_items_def map_filter_def)
next
  case (Cons x xs)
  then have "x \<in> set (stream_ids t key)"
    by (metis filter_is_subset list.set_intros(1) subsetD)
  then have "(key, x) \<in> fst ` set t" by (simp add: stream_ids_def set_part_keys)
  then have "map_of t (key, x) \<noteq> None" by (simp add: map_of_eq_None_iff)
  then obtain m where "map_of t (key, x) = Some m" by blast
  with Cons show ?thesis
    by (simp add: next_items_def range_items_def scan_from_def part_keys_after [OF assms]
        page_items_def map_filter_def stream_item_def)
qed

text \<open>The four ways a read of new items goes, for a client that is alone, a group whose
  cursor is a well-formed ID with a sequence number below the last one, and a stream of
  well-formed IDs.\<close>

lemma XREADGROUP_uninitialized:
  assumes "opt \<noteq> XReadPending" and "quiet w" and "group_cursor (tbl w) key grp = []"
  shows "XREADGROUP w key grp consumer opt n = Return (([], Some ErrXGroupNotInitialized), w)"
  using XREADGROUP_attempt_uninitialized [OF assms(2,3)] assms(1) by (rule XREADGROUP_Done [rotated])

lemma XREADGROUP_nothing_new:
  assumes "opt \<noteq> XReadPending" and "quiet w"
    and "group_cursor (tbl w) key grp = NewXID t s" and "0 \<le> sint t" and "s + 1 \<noteq> 0"
    and "stream_wf (tbl w) key"
    and "filter (\<lambda>x. NewXID t s < x) (stream_ids (tbl w) key) = []"
  shows "XREADGROUP w key grp consumer opt n = Return (([], None), w)"
proof -
  have c: "group_cursor (tbl w) key grp \<noteq> []"
    using length_NewXID [of t s] by (auto simp: assms(3))
  have nx: "Next (group_cursor (tbl w) key grp) = Return (NewXID t (s + 1))"
    unfolding assms(3) using assms(4) by (rule Next_NewXID)
  have "XREADGROUP_attempt w key grp consumer opt = Done (Return (([], None), w))"
    by (simp add: XREADGROUP_attempt_quiet [OF assms(2) c nx] next_items_wf [OF assms(4,5,6)] assms(7))
  then show ?thesis using assms(1) by (rule XREADGROUP_Done [rotated])
qed

lemma XREADGROUP_next:
  assumes "opt \<noteq> XReadPending" and "quiet w"
    and "group_cursor (tbl w) key grp = NewXID t s" and "0 \<le> sint t" and "s + 1 \<noteq> 0"
    and "stream_wf (tbl w) key"
    and "filter (\<lambda>x. NewXID t s < x) (stream_ids (tbl w) key) = x # xs"
    and "map_of (tbl w) (key, x) = Some f"
  shows "XREADGROUP_attempt w key grp consumer opt =
     (if opt = XReadNew then
        (case delivered (item_or_empty (tbl w) (xGroupKey key grp, x)) consumer (now w) of
           None \<Rightarrow> Done (Return (([parseStreamItem (x, f)], Some (StoreError ''ValidationException'')), w))
         | Some m \<Rightarrow>
             Done (Return (([parseStreamItem (x, f)], None),
               w\<lparr>tbl := AList.update (xGroupKey key grp, x) m (push_cursor (tbl w) key grp x)\<rparr>)))
      else Done (Return (([parseStreamItem (x, f)], None), w\<lparr>tbl := push_cursor (tbl w) key grp x\<rparr>)))"
proof -
  have c: "group_cursor (tbl w) key grp \<noteq> []"
    using length_NewXID [of t s] by (auto simp: assms(3))
  have nx: "Next (group_cursor (tbl w) key grp) = Return (NewXID t (s + 1))"
    unfolding assms(3) using assms(4) by (rule Next_NewXID)
  have "x \<in> set (filter (\<lambda>x. NewXID t s < x) (stream_ids (tbl w) key))"
    unfolding assms(7) by simp
  then have lt: "NewXID t s < x" by simp
  show ?thesis
    using lt
    by (simp add: XREADGROUP_attempt_quiet [OF assms(2) c nx] next_items_wf [OF assms(4,5,6)]
        assms(7) stream_item_Some [OF assms(8)] assms(3) cong: option.case_cong)
qed

lemma quiet_stays:
  assumes "quiet w" and "XREADGROUP_attempt w key grp consumer opt = Retry w'"
  shows "w' = w"
proof (cases "group_cursor (tbl w) key grp = []")
  case True
  with assms show ?thesis by (simp add: XREADGROUP_attempt_uninitialized)
next
  case False
  show ?thesis
  proof (cases "Next (group_cursor (tbl w) key grp)")
    case Panic
    with assms False show ?thesis
      by (simp add: XREADGROUP_attempt_def xGroupCursorGet_quiet)
  next
    case (Return nx)
    from assms(2) show ?thesis
      unfolding XREADGROUP_attempt_quiet [OF assms(1) False Return]
      by (auto split: list.splits if_splits option.splits)
  qed
qed

text \<open>Reading never moves the cursor of the group back.\<close>

lemma XREADGROUP_cursor:
  assumes "opt \<noteq> XReadPending" and "quiet w"
    and "XREADGROUP w key grp consumer opt n = Return (r, w')"
  shows "group_cursor (tbl w') key grp = group_cursor (tbl w) key grp \<or>
         group_cursor (tbl w) key grp < group_cursor (tbl w') key grp"
proof (cases "XREADGROUP_attempt w key grp consumer opt")
  case (Retry w1)
  with assms(2) have w1: "w1 = w" by (rule quiet_stays)
  from XREADGROUP_five_retries [OF assms(1), of w key grp consumer w w w w w n] Retry w1 assms(3)
  show ?thesis by simp
next
  case (Done d)
  with assms(1) have "XREADGROUP w key grp consumer opt n = d" by (rule XREADGROUP_Done)
  with assms(3) have d: "d = Return (r, w')" by simp
  note Done = Done [unfolded d]
  show ?thesis
  proof (cases "group_cursor (tbl w) key grp = []")
    case True
    with Done assms(2) show ?thesis by (simp add: XREADGROUP_attempt_uninitialized)
  next
    case False
    show ?thesis
    proof (cases "Next (group_cursor (tbl w) key grp)")
      case Panic
      with Done assms(2) False show ?thesis
        by (simp add: XREADGROUP_attempt_def xGroupCursorGet_quiet)
    next
      case (Return nx)
      have g: "group_cursor (AList.update (xGroupKey key grp, i) m (push_cursor (tbl w) key grp i)) key grp = i"
        if "i \<le> XEnd" for i m
      proof -
        have "xGroupCursorKey key grp \<noteq> (xGroupKey key grp, i)" using that by (rule cursor_key_neq)
        then have "map_of (AList.update (xGroupKey key grp, i) m (push_cursor (tbl w) key grp i)) (xGroupCursorKey key grp)
              = map_of (push_cursor (tbl w) key grp i) (xGroupCursorKey key grp)"
          by (simp add: update_conv')
        then show ?thesis using group_cursor_push [of "tbl w" key grp i] by (simp add: group_cursor_def)
      qed
      show ?thesis
      proof (cases "next_items (tbl w) key nx")
        case Nil
        with Done show ?thesis
          by (simp add: XREADGROUP_attempt_quiet [OF assms(2) False Return])
      next
        case (Cons item others)
        note le = next_items_le_XEnd [OF Cons]
        from Done Cons show ?thesis
          unfolding XREADGROUP_attempt_quiet [OF assms(2) False Return]
          by (auto simp: g [OF le] split: if_splits option.splits)
      qed
    qed
  qed
qed

subsection \<open>Reading for a group: the cases of a pass\<close>

lemma part_keys_update_other:
  assumes "fst k \<noteq> pk"
  shows "part_keys (AList.update k v t) pk lo hi = part_keys t pk lo hi"
proof (rule sorted_distinct_set_unique)
  show "set (part_keys (AList.update k v t) pk lo hi) = set (part_keys t pk lo hi)"
    using assms by (auto simp: set_part_keys dom_update)
qed simp_all

lemma stream_wf_iff: "stream_wf t key \<longleftrightarrow> (\<forall>sk. (key, sk) \<in> fst ` set t \<longrightarrow> well_formed sk)"
  by (force simp: stream_wf_def list_all_iff)

lemma stream_ids_push [simp]: "stream_ids (push_cursor t key grp x) key = stream_ids t key"
  using xGroupKey_neq [of key grp]
  by (simp add: stream_ids_def push_cursor_def xGroupCursorKey_def part_keys_update_other)

lemma stream_wf_push [simp]: "stream_wf (push_cursor t key grp x) key \<longleftrightarrow> stream_wf t key"
  using xGroupKey_neq [of key grp]
  by (auto simp: stream_wf_iff push_cursor_def xGroupCursorKey_def dom_update)

lemma stream_item_push [simp]: "stream_item (push_cursor t key grp x) key xid = stream_item t key xid"
  by (simp add: push_cursor_def xGroupCursorKey_def)

lemma map_of_push:
  "k \<noteq> xGroupCursorKey key grp \<Longrightarrow> map_of (push_cursor t key grp x) k = map_of t k"
  by (simp add: push_cursor_def update_conv')

lemma push_push [simp]:
  "push_cursor (push_cursor t key grp a) key grp b = push_cursor t key grp b"
  by (simp add: push_cursor_def item_or_empty_def update_conv')

text \<open>The IDs of the stream after the cursor, oldest first.\<close>

definition newer :: "table \<Rightarrow> string \<Rightarrow> XID \<Rightarrow> XID list" where
  "newer t key c = filter (\<lambda>x. c < x) (stream_ids t key)"

text \<open>The client is alone, the stream holds well-formed IDs, and the cursor of the group is
  the well-formed ID \<open>t-s\<close>, with \<open>s\<close> below the last sequence number.\<close>

definition steady :: "world \<Rightarrow> string \<Rightarrow> string \<Rightarrow> int64 \<Rightarrow> uint64 \<Rightarrow> bool" where
  "steady w key grp t s \<longleftrightarrow>
     quiet w \<and> stream_wf (tbl w) key \<and> group_cursor (tbl w) key grp = NewXID t s \<and>
     0 \<le> sint t \<and> s + 1 \<noteq> 0"

lemma newer_above: "newer t key c = x # xs \<Longrightarrow> c < x"
proof -
  assume "newer t key c = x # xs"
  then have "x \<in> set (filter (\<lambda>x. c < x) (stream_ids t key))" by (simp add: newer_def)
  then show ?thesis by simp
qed

lemma newer_item:
  assumes "newer t key c = x # xs"
  shows "\<exists>f. map_of t (key, x) = Some f"
proof -
  from assms have "x \<in> set (filter (\<lambda>x. c < x) (stream_ids t key))" by (simp add: newer_def)
  then have "x \<in> set (stream_ids t key)" by simp
  then have "(key, x) \<in> fst ` set t" by (simp add: stream_ids_def set_part_keys)
  then have "map_of t (key, x) \<noteq> None" by (simp add: map_of_eq_None_iff)
  then show ?thesis by blast
qed

lemma XREADGROUP_none_newer:
  assumes "opt \<noteq> XReadPending" and "steady w key grp t s" and "newer (tbl w) key (NewXID t s) = []"
  shows "XREADGROUP w key grp consumer opt n = Return (([], None), w)"
  using assms XREADGROUP_nothing_new [of opt w key grp t s consumer n]
  by (simp add: steady_def newer_def)

lemma XREADGROUP_delivers:
  assumes "opt \<noteq> XReadPending" and "steady w key grp t s"
    and "newer (tbl w) key (NewXID t s) = x # xs"
  shows "XREADGROUP w key grp consumer opt n =
     (if opt = XReadNew then
        (case delivered (item_or_empty (tbl w) (xGroupKey key grp, x)) consumer (now w) of
           None \<Rightarrow>
             Return ((stream_item (tbl w) key x, Some (StoreError ''ValidationException'')), w)
         | Some m \<Rightarrow>
             Return ((stream_item (tbl w) key x, None),
               w\<lparr>tbl := AList.update (xGroupKey key grp, x) m (push_cursor (tbl w) key grp x)\<rparr>))
      else Return ((stream_item (tbl w) key x, None), w\<lparr>tbl := push_cursor (tbl w) key grp x\<rparr>))"
proof -
  from newer_item [OF assms(3)] obtain f where f: "map_of (tbl w) (key, x) = Some f" by blast
  from assms(2) have s: "quiet w" "group_cursor (tbl w) key grp = NewXID t s" "0 \<le> sint t"
    "s + 1 \<noteq> 0" "stream_wf (tbl w) key"
    by (simp_all add: steady_def)
  note a = XREADGROUP_next [OF assms(1) s assms(3) [unfolded newer_def] f, of consumer]
  show ?thesis
  proof (cases "opt = XReadNew")
    case False
    with a have "XREADGROUP_attempt w key grp consumer opt =
        Done (Return (([parseStreamItem (x, f)], None), w\<lparr>tbl := push_cursor (tbl w) key grp x\<rparr>))"
      by simp
    from XREADGROUP_Done [OF assms(1) this] False show ?thesis
      by (simp add: stream_item_Some [OF f])
  next
    case True
    show ?thesis
    proof (cases "delivered (item_or_empty (tbl w) (xGroupKey key grp, x)) consumer (now w)")
      case None
      with a True have "XREADGROUP_attempt w key grp consumer opt =
          Done (Return (([parseStreamItem (x, f)], Some (StoreError ''ValidationException'')), w))"
        by simp
      from XREADGROUP_Done [OF assms(1) this] True None show ?thesis
        by (simp add: stream_item_Some [OF f])
    next
      case (Some m)
      with a True have "XREADGROUP_attempt w key grp consumer opt =
          Done (Return (([parseStreamItem (x, f)], None),
            w\<lparr>tbl := AList.update (xGroupKey key grp, x) m (push_cursor (tbl w) key grp x)\<rparr>))"
        by simp
      from XREADGROUP_Done [OF assms(1) this] True Some show ?thesis
        by (simp add: stream_item_Some [OF f])
    qed
  qed
qed

text \<open>The compare-and-swap: a transaction that pushes the cursor only goes through when
  the new value is above the stored one, whatever the table is at that moment.\<close>

lemma push_requires:
  assumes "transact t (xGroupCursorPushAction key grp x # as) = Inr t'"
  shows "group_cursor t key grp < x"
proof -
  from assms have "action_ok t (xGroupCursorPushAction key grp x)"
    by (auto simp: transact_def split: if_splits)
  then show ?thesis
    by (auto simp: xGroupCursorPushAction_def group_cursor_def ReturnValue_String_def attr_of_def
        split: option.splits av.splits if_splits)
qed

lemma XREADGROUP_attempt_lost:
  assumes "XREADGROUP_attempt w key grp consumer opt = Retry w'"
  shows "\<exists>w2 x. TransactWriteItems w2
            (xGroupCursorPushAction key grp x #
             (if opt = XReadNew
              then [toPutAction \<lparr>PendingID = x, Consumer = consumer, LastDelivered = now w2,
                                DeliveryCount = 0\<rparr> (xGroupKey key grp)]
              else [])) = (Some ConditionFailed, w')"
  using assms
  by (auto simp: XREADGROUP_attempt_def conditionFailureError_def
      split: prod.splits sum.splits outcome.splits list.splits if_splits option.splits)

subsection \<open>A pass that loses the race\<close>

lemma arrive_Meanwhile:
  "env w = Meanwhile f # es \<Longrightarrow> arrive w = (Inr (f (tbl w)), w\<lparr>tbl := f (tbl w), env := es\<rparr>)"
  by (simp add: arrive_def)

lemma XRANGE_meanwhile:
  assumes "env w = Meanwhile g # es" and "lo \<le> hi"
  shows "XRANGE w key lo hi 1 =
     ((range_items (g (tbl w)) key lo hi True None 1, None), w\<lparr>tbl := g (tbl w), env := es\<rparr>)"
proof -
  let ?w' = "w\<lparr>tbl := g (tbl w), env := es\<rparr>"
  let ?t = "g (tbl w)"
  let ?rest = "scan_from True None (part_keys ?t key lo hi)"
  have nlt: "\<not> hi < lo" using assms(2) by (simp add: not_less)
  show ?thesis
  proof (cases ?rest)
    case Nil
    then show ?thesis
      using nlt
      by (simp add: XRANGE_def xRange_def xRange_loop.simps [of w] Query_def
          arrive_Meanwhile [OF assms(1)] query_page_def range_items_def page_items_def
          map_filter_def)
  next
    case (Cons k ks)
    have len: "length (page_items ?t key (\<lambda>m. True) [k]) = length [k]"
    proof (rule length_page_items [of _ _ _ lo hi])
      have "k \<in> set ?rest" by (simp add: Cons)
      then show "set [k] \<subseteq> set (part_keys ?t key lo hi)" by (simp add: set_scan_from)
    qed
    have t1: "take (min (Suc 0) (max (Suc 0) (page w))) (k # ks) = [k]"
      by (simp add: min_def max_def)
    show ?thesis
      using nlt len
      by (simp add: XRANGE_def xRange_def xRange_loop.simps [of w] xRange_loop.simps [of ?w']
          Query_def arrive_Meanwhile [OF assms(1)] query_page_def range_items_def Cons Let_def t1)
  qed
qed

lemma next_items_bound:
  assumes "next_items t key nx = item # others"
  shows "nx \<le> XEnd"
proof -
  have "map ID (next_items t key nx) = take (nat 1) (scan_from True None (part_keys t key nx XEnd))"
    unfolding next_items_def by (rule map_ID_range_items)
  with assms have "ID item \<in> set (take (nat 1) (scan_from True None (part_keys t key nx XEnd)))"
    by (metis list.set_intros(1) list.simps(9))
  then have "ID item \<in> set (part_keys t key nx XEnd)"
    using scan_subset by blast
  then show ?thesis by (auto simp: set_part_keys)
qed

text \<open>A pass during which other clients write: \<open>f\<close> before the cursor is read, \<open>g\<close> before
  the stream is read, \<open>h\<close> before the transaction. When the cursor that \<open>h\<close> leaves is not
  below the item that was read, the condition of the transaction fails and the pass asks
  for another one.\<close>

lemma XREADGROUP_attempt_race:
  assumes e: "env w = Meanwhile f # Meanwhile g # Meanwhile h # es"
    and c: "group_cursor (f (tbl w)) key grp \<noteq> []"
      "Next (group_cursor (f (tbl w)) key grp) = Return nx"
    and i: "next_items (g (f (tbl w))) key nx = item # others"
    and r: "group_cursor (h (g (f (tbl w)))) key grp \<noteq> []"
      "\<not> group_cursor (h (g (f (tbl w)))) key grp < ID item"
  shows "XREADGROUP_attempt w key grp consumer opt = Retry (w\<lparr>tbl := h (g (f (tbl w))), env := es\<rparr>)"
proof -
  let ?w1 = "w\<lparr>tbl := f (tbl w), env := Meanwhile g # Meanwhile h # es\<rparr>"
  let ?w2 = "w\<lparr>tbl := g (f (tbl w)), env := Meanwhile h # es\<rparr>"
  let ?w3 = "w\<lparr>tbl := h (g (f (tbl w))), env := es\<rparr>"
  have g: "xGroupCursorGet w key grp = (Inr (group_cursor (f (tbl w)) key grp), ?w1)"
    using c(1) by (simp add: xGroupCursorGet_def GetItem_def arrive_Meanwhile [OF e] group_cursor_def Let_def)
  have "env ?w1 = Meanwhile g # Meanwhile h # es" by simp
  from XRANGE_meanwhile [OF this next_items_bound [OF i], of key]
  have x: "XRANGE ?w1 key nx XEnd 1 = ((item # others, None), ?w2)"
    by (simp add: i [unfolded next_items_def])
  have a: "arrive ?w2 = (Inr (h (g (f (tbl w)))), ?w3)"
    by (simp add: arrive_def)
  have le: "ID item \<le> XEnd" using i by (rule next_items_le_XEnd)
  have t: "TransactWriteItems ?w2
             (xGroupCursorPushAction key grp (ID item) #
              (if opt = XReadNew
               then [toPutAction \<lparr>PendingID = ID item, Consumer = consumer,
                                 LastDelivered = now ?w2, DeliveryCount = 0\<rparr> (xGroupKey key grp)]
               else [])) = (Some ConditionFailed, ?w3)"
    using r by (simp add: TransactWriteItems_def a transact_push [OF r(1)] transact_push_put [OF r(1) le])
  show ?thesis
    by (simp add: XREADGROUP_attempt_def g c(2) x t conditionFailureError_def)
qed

section \<open>The claims\<close>

subsection \<open>The XID codec\<close>

text \<open>What the codec does with a timestamp before the epoch: the sign takes the place
  of a digit, and the decoder reads the sign as the separator.\<close>

lemma NewXID_before_epoch:
  "NewXID (- 1) 5 = ''-0000000000000000001-00000000000000000005''"
  by (simp add: xid_eval)

lemma Time_before_epoch: "Time (NewXID (- 1) 5) = Return 0"
  by (simp add: NewXID_before_epoch parse_eval)

lemma Seq_before_epoch: "Seq (NewXID (- 1) 5) = Return 1"
  by (simp add: NewXID_before_epoch parse_eval)

text \<open>
  C5. For every valid (timestamp, sequence) pair, decoding the encoded XID recovers the
  timestamp (\<open>Time\<close>) and the sequence number (\<open>Seq\<close>), and the encoded string has the
  same length, 41, whatever the inputs. A pair is valid when its timestamp is not
  before the Unix epoch; the length is 41 for every pair.
\<close>

theorem XID_roundtrip:
  "length (NewXID t s) = 41 \<and>
   (valid_pair t s \<longrightarrow> Time (NewXID t s) = Return t \<and> Seq (NewXID t s) = Return s)"
  by (simp add: length_NewXID valid_pair_def Time_NewXID Seq_NewXID)

theorem XID_roundtrip_witness:
  "valid_pair 1700000000 42 \<and>
   NewXID 1700000000 42 = ''00000000001700000000-00000000000000000042'' \<and>
   length (NewXID 1700000000 42) = 41 \<and>
   Time (NewXID 1700000000 42) = Return 1700000000 \<and>
   Seq (NewXID 1700000000 42) = Return 42"
proof -
  have v: "valid_pair 1700000000 42" by (simp add: valid_pair_def)
  have e: "NewXID 1700000000 42 = ''00000000001700000000-00000000000000000042''"
    by (simp add: xid_eval)
  from XID_roundtrip [of 1700000000 42] v
  have "length (NewXID 1700000000 42) = 41 \<and> Time (NewXID 1700000000 42) = Return 1700000000 \<and>
        Seq (NewXID 1700000000 42) = Return 42"
    by blast
  with v e show ?thesis by blast
qed

text \<open>
  C2. For two XIDs built from valid pairs, the byte-wise order of the strings is the
  order of the pairs: first by timestamp, then by sequence number.
\<close>

theorem XID_order:
  "valid_pair ta sa \<Longrightarrow> valid_pair tb sb \<Longrightarrow>
   NewXID ta sa < NewXID tb sb \<longleftrightarrow> pair_lt (ta, sa) (tb, sb)"
  by (simp add: valid_pair_def NewXID_less)

theorem XID_order_witness:
  "valid_pair 9 7 \<and> valid_pair 10 3 \<and> pair_lt (9, 7) (10, 3) \<and> NewXID 9 7 < NewXID 10 3 \<and>
   \<not> pair_lt (10, 3) (9, 7) \<and> \<not> NewXID 10 3 < NewXID 9 7"
proof -
  have v: "valid_pair 9 7" "valid_pair 10 3" by (simp_all add: valid_pair_def)
  have p: "pair_lt (9, 7) (10, 3)" "\<not> pair_lt (10, 3) (9, 7)" by (simp_all add: pair_lt_def)
  from XID_order [OF v] XID_order [OF v(2) v(1)] p
  have "NewXID 9 7 < NewXID 10 3" "\<not> NewXID 10 3 < NewXID 9 7" by blast+
  with v p show ?thesis by blast
qed

lemma XStart_NewXID: "XStart = NewXID 0 0"
  by (simp add: XStart_def xid_eval)

lemma NewXID_not_auto: "NewXID t s \<noteq> XAutoID"
proof
  assume "NewXID t s = XAutoID"
  then have "length (NewXID t s) = length XAutoID" by (rule arg_cong)
  then show False by (simp add: length_NewXID XAutoID_def)
qed

subsection \<open>Worlds to try the operations on\<close>

definition w_new :: world where
  "w_new = \<lparr>tbl = [], env = [], now = 1700000000, page = 2\<rparr>"

definition f_a1 :: "string \<Rightarrow> av option" where
  "f_a1 = [''a'' \<mapsto> StrV ''1'']"

definition w_one :: world where
  "w_one = w_new\<lparr>tbl := admit (init_watermark [] ''s'') ''s'' (NewXID 5 1) f_a1\<rparr>"

text \<open>
  C1. \<open>XADD\<close> with an explicit ID, by a client that is alone: it fails, and leaves the
  table as it was, when the ID is not above the stream's watermark; when it succeeds
  it answers the ID, the watermark is that ID and the item is stored; on a stream with
  no watermark it sets the watermark to \<open>XStart\<close> and then admits any ID above
  \<open>XStart\<close> (and refuses the others, leaving the watermark at \<open>XStart\<close>).
\<close>

theorem XADD_watermark:
  assumes "quiet w" and "xid \<noteq> XAutoID"
  shows "(\<forall>x. watermark (tbl w) key = Some (StrV x) \<and> \<not> x < xid \<longrightarrow>
            XADD w key xid flds = (([], Some ConditionFailed), w)) \<and>
         (\<forall>x. watermark (tbl w) key = Some (StrV x) \<and> x < xid \<longrightarrow>
            XADD w key xid flds = ((xid, None), w\<lparr>tbl := admit (tbl w) key xid flds\<rparr>)) \<and>
         (\<forall>r w'. XADD w key xid flds = ((r, None), w') \<longrightarrow>
            r = xid \<and> watermark (tbl w') key = Some (StrV xid) \<and>
            map_of (tbl w') (key, xid) = Some (toAV \<lparr>ID = xid, Fields = flds\<rparr>)) \<and>
         (watermark (tbl w) key = None \<and> XStart < xid \<longrightarrow>
            XADD w key xid flds =
              ((xid, None), w\<lparr>tbl := admit (init_watermark (tbl w) key) key xid flds\<rparr>)) \<and>
         (watermark (tbl w) key = None \<and> \<not> XStart < xid \<longrightarrow>
            XADD w key xid flds =
              (([], Some ConditionFailed), w\<lparr>tbl := init_watermark (tbl w) key\<rparr>) \<and>
            watermark (init_watermark (tbl w) key) key = Some (StrV XStart))"
proof -
  note x = XADD_quiet [OF assms, of key flds]
  have 1: "\<forall>x. watermark (tbl w) key = Some (StrV x) \<and> \<not> x < xid \<longrightarrow>
            XADD w key xid flds = (([], Some ConditionFailed), w)"
    unfolding x by (auto simp: admits_def)
  have 2: "\<forall>x. watermark (tbl w) key = Some (StrV x) \<and> x < xid \<longrightarrow>
            XADD w key xid flds = ((xid, None), w\<lparr>tbl := admit (tbl w) key xid flds\<rparr>)"
    unfolding x by (auto simp: admits_def)
  have 3: "\<forall>r w'. XADD w key xid flds = ((r, None), w') \<longrightarrow>
            r = xid \<and> watermark (tbl w') key = Some (StrV xid) \<and>
            map_of (tbl w') (key, xid) = Some (toAV \<lparr>ID = xid, Fields = flds\<rparr>)"
    unfolding x by (auto simp: item_admit split: if_splits)
  have 4: "watermark (tbl w) key = None \<and> XStart < xid \<longrightarrow>
            XADD w key xid flds =
              ((xid, None), w\<lparr>tbl := admit (init_watermark (tbl w) key) key xid flds\<rparr>)"
    unfolding x by (auto simp: admits_def)
  have 5: "watermark (tbl w) key = None \<and> \<not> XStart < xid \<longrightarrow>
            XADD w key xid flds =
              (([], Some ConditionFailed), w\<lparr>tbl := init_watermark (tbl w) key\<rparr>) \<and>
            watermark (init_watermark (tbl w) key) key = Some (StrV XStart)"
    unfolding x by (auto simp: admits_def)
  from 1 2 3 4 5 show ?thesis by blast
qed

theorem XADD_watermark_witness:
  "quiet w_new \<and> NewXID 5 1 \<noteq> XAutoID \<and> watermark (tbl w_new) ''s'' = None \<and>
   XStart < NewXID 5 1 \<and>
   XADD w_new ''s'' (NewXID 5 1) f_a1 = ((NewXID 5 1, None), w_one) \<and>
   watermark (tbl w_one) ''s'' = Some (StrV (NewXID 5 1)) \<and>
   map_of (tbl w_one) (''s'', NewXID 5 1) = Some (toAV \<lparr>ID = NewXID 5 1, Fields = f_a1\<rparr>) \<and>
   quiet w_one \<and> \<not> NewXID 5 1 < NewXID 4 9 \<and>
   XADD w_one ''s'' (NewXID 4 9) f_a1 = (([], Some ConditionFailed), w_one) \<and>
   \<not> NewXID 5 1 < NewXID 5 1 \<and>
   XADD w_one ''s'' (NewXID 5 1) f_a1 = (([], Some ConditionFailed), w_one) \<and>
   NewXID 5 1 < NewXID 5 2 \<and>
   fst (XADD w_one ''s'' (NewXID 5 2) f_a1) = (NewXID 5 2, None) \<and>
   \<not> XStart < XStart \<and>
   fst (XADD w_new ''s'' XStart f_a1) = ([], Some ConditionFailed)"
proof -
  have q: "quiet w_new" "quiet w_one" by (simp_all add: quiet_def w_new_def w_one_def)
  have n: "NewXID 5 1 \<noteq> XAutoID" "NewXID 4 9 \<noteq> XAutoID" "NewXID 5 2 \<noteq> XAutoID"
    by (rule NewXID_not_auto)+
  have xs: "XStart \<noteq> XAutoID" by (simp add: XStart_def XAutoID_def)
  have w0: "watermark (tbl w_new) ''s'' = None" by (simp add: watermark_def w_new_def attr_of_def)
  have w1: "watermark (tbl w_one) ''s'' = Some (StrV (NewXID 5 1))" by (simp add: w_one_def)
  have o: "XStart < NewXID 5 1" "\<not> NewXID 5 1 < NewXID 4 9" "\<not> NewXID 5 1 < NewXID 5 1"
    "NewXID 5 1 < NewXID 5 2" "\<not> XStart < XStart"
    by (simp_all add: XStart_NewXID NewXID_less pair_lt_def)
  have a: "XADD w_new ''s'' (NewXID 5 1) f_a1 = ((NewXID 5 1, None), w_one)"
    using XADD_watermark [OF q(1) n(1), of "''s''" f_a1] w0 o(1) by (simp add: w_one_def w_new_def)
  have i: "map_of (tbl w_one) (''s'', NewXID 5 1) = Some (toAV \<lparr>ID = NewXID 5 1, Fields = f_a1\<rparr>)"
    using XADD_watermark [OF q(1) n(1), of "''s''" f_a1] a by blast
  have b: "XADD w_one ''s'' (NewXID 4 9) f_a1 = (([], Some ConditionFailed), w_one)"
    using XADD_watermark [OF q(2) n(2), of "''s''" f_a1] w1 o(2) by blast
  have c: "XADD w_one ''s'' (NewXID 5 1) f_a1 = (([], Some ConditionFailed), w_one)"
    using XADD_watermark [OF q(2) n(1), of "''s''" f_a1] w1 o(3) by blast
  have d: "fst (XADD w_one ''s'' (NewXID 5 2) f_a1) = (NewXID 5 2, None)"
    using XADD_watermark [OF q(2) n(3), of "''s''" f_a1] w1 o(4) by simp
  have e: "fst (XADD w_new ''s'' XStart f_a1) = ([], Some ConditionFailed)"
    using XADD_watermark [OF q(1) xs, of "''s''" f_a1] w0 o(5) by simp
  from q n(1) w0 w1 o a i b c d e show ?thesis by blast
qed

definition pending_entry :: "string \<Rightarrow> int \<Rightarrow> int \<Rightarrow> attrs" where
  "pending_entry consumer lastDelivered deliveryCount =
     [consumerKey \<mapsto> StrV consumer,
      lastDeliveryTimestampKey \<mapsto> NumV lastDelivered,
      deliveryCountKey \<mapsto> NumV deliveryCount]"

text \<open>A stream \<open>s\<close> with the items \<open>5-1\<close> and \<open>5-2\<close>, and a group \<open>g\<close> whose cursor is at
  \<open>5-1\<close> and in which \<open>5-1\<close> is pending for the consumer \<open>c1\<close> since the time 100.\<close>

definition t_group :: table where
  "t_group =
     [((''s'', NewXID 5 1), toAV \<lparr>ID = NewXID 5 1, Fields = f_a1\<rparr>),
      ((''s'', NewXID 5 2), toAV \<lparr>ID = NewXID 5 2, Fields = f_a1\<rparr>),
      (xSequenceKey ''s'', [vk \<mapsto> StrV (NewXID 5 2)]),
      (xGroupCursorKey ''s'' ''g'', [vk \<mapsto> StrV (NewXID 5 1)]),
      ((xGroupKey ''s'' ''g'', NewXID 5 1), pending_entry ''c1'' 100 1)]"

definition w_group :: world where
  "w_group = \<lparr>tbl = t_group, env = [], now = 1700000000, page = 2\<rparr>"

definition w_group_fault :: world where
  "w_group_fault = w_group\<lparr>env := [Meanwhile (\<lambda>t. t), Fault ''timeout'']\<rparr>"

lemma NewXID_not_cursor [simp]: "NewXID t s \<noteq> ''_redimo/cursor''"
proof
  assume "NewXID t s = ''_redimo/cursor''"
  then have "length (NewXID t s) = length ''_redimo/cursor''" by (rule arg_cong)
  then show False by (simp add: length_NewXID)
qed

lemma NewXID_inj: "0 \<le> sint ta \<Longrightarrow> 0 \<le> sint tb \<Longrightarrow> NewXID ta sa = NewXID tb sb \<longleftrightarrow> ta = tb \<and> sa = sb"
proof
  assume v: "0 \<le> sint ta" "0 \<le> sint tb" and e: "NewXID ta sa = NewXID tb sb"
  from e have "Time (NewXID ta sa) = Time (NewXID tb sb)" "Seq (NewXID ta sa) = Seq (NewXID tb sb)"
    by simp_all
  with v show "ta = tb \<and> sa = sb" by (simp add: Time_NewXID Seq_NewXID)
qed simp

text \<open>
  C8. \<open>XACK\<close> deletes the pending entry of every ID it is given. For a client that is
  alone it never fails, and an ID is in the list it answers exactly when its entry was
  there (for IDs given once, the list is the given IDs that had an entry, in order).
  When a request to the store fails, it stops there and answers the IDs acknowledged
  so far with the error.
\<close>

theorem XACK_reports_existing:
  "(quiet w \<longrightarrow>
      (\<exists>acked. XACK w key grp ids =
         ((acked, None), w\<lparr>tbl := delete_all (map (Pair (xGroupKey key grp)) ids) (tbl w)\<rparr>) \<and>
         set acked = {xid \<in> set ids. map_of (tbl w) (xGroupKey key grp, xid) \<noteq> None} \<and>
         (distinct ids \<longrightarrow>
            acked = filter (\<lambda>xid. map_of (tbl w) (xGroupKey key grp, xid) \<noteq> None) ids)) \<and>
      (\<forall>xid \<in> set ids.
         map_of (delete_all (map (Pair (xGroupKey key grp)) ids) (tbl w)) (xGroupKey key grp, xid) = None))
   \<and>
   (XACK w key grp ids = ((acked1, None), w1) \<and> env w1 = Fault e # es \<longrightarrow>
      XACK w key grp (ids @ xid # later) = ((acked1, Some (StoreError e)), w1\<lparr>env := es\<rparr>))"
proof -
  have a: "quiet w \<longrightarrow>
      (\<exists>acked. XACK w key grp ids =
         ((acked, None), w\<lparr>tbl := delete_all (map (Pair (xGroupKey key grp)) ids) (tbl w)\<rparr>) \<and>
         set acked = {xid \<in> set ids. map_of (tbl w) (xGroupKey key grp, xid) \<noteq> None} \<and>
         (distinct ids \<longrightarrow>
            acked = filter (\<lambda>xid. map_of (tbl w) (xGroupKey key grp, xid) \<noteq> None) ids))"
    by (simp add: XACK_def XACK_loop_quiet set_reported reported_distinct)
  have b: "\<forall>xid \<in> set ids.
         map_of (delete_all (map (Pair (xGroupKey key grp)) ids) (tbl w)) (xGroupKey key grp, xid) = None"
    by (simp add: map_of_delete_all)
  have c: "XACK w key grp ids = ((acked1, None), w1) \<and> env w1 = Fault e # es \<longrightarrow>
      XACK w key grp (ids @ xid # later) = ((acked1, Some (StoreError e)), w1\<lparr>env := es\<rparr>)"
    by (simp add: XACK_def XACK_loop_append DeleteItem_fault)
  from a b c show ?thesis by blast
qed

lemma pending_5_1: "map_of t_group (xGroupKey ''s'' ''g'', NewXID 5 1) = Some (pending_entry ''c1'' 100 1)"
  by (simp add: t_group_def xGroupKey_def xSequenceKey_def xGroupCursorKey_def)

lemma pending_5_2: "map_of t_group (xGroupKey ''s'' ''g'', NewXID 5 2) = None"
  by (simp add: t_group_def xGroupKey_def xSequenceKey_def xGroupCursorKey_def NewXID_inj)

theorem XACK_reports_existing_witness:
  "quiet w_group \<and> distinct [NewXID 5 1, NewXID 5 2] \<and>
   map_of (tbl w_group) (xGroupKey ''s'' ''g'', NewXID 5 1) \<noteq> None \<and>
   map_of (tbl w_group) (xGroupKey ''s'' ''g'', NewXID 5 2) = None \<and>
   fst (XACK w_group ''s'' ''g'' [NewXID 5 1, NewXID 5 2]) = ([NewXID 5 1], None) \<and>
   map_of (tbl (snd (XACK w_group ''s'' ''g'' [NewXID 5 1, NewXID 5 2])))
     (xGroupKey ''s'' ''g'', NewXID 5 1) = None \<and>
   XACK w_group_fault ''s'' ''g'' [NewXID 5 1] =
     (([NewXID 5 1], None),
      w_group\<lparr>tbl := AList.delete (xGroupKey ''s'' ''g'', NewXID 5 1) t_group,
              env := [Fault ''timeout'']\<rparr>) \<and>
   XACK w_group_fault ''s'' ''g'' [NewXID 5 1, NewXID 5 2, NewXID 5 3] =
     (([NewXID 5 1], Some (StoreError ''timeout'')),
      w_group\<lparr>tbl := AList.delete (xGroupKey ''s'' ''g'', NewXID 5 1) t_group, env := []\<rparr>)"
proof -
  let ?gk = "xGroupKey ''s'' ''g''"
  let ?w1 = "w_group\<lparr>tbl := AList.delete (?gk, NewXID 5 1) t_group, env := [Fault ''timeout'']\<rparr>"
  have q: "quiet w_group" by (simp add: quiet_def w_group_def)
  have d: "distinct [NewXID 5 1, NewXID 5 2]" by (simp add: NewXID_inj)
  have t: "tbl w_group = t_group" by (simp add: w_group_def)
  have p1: "map_of (tbl w_group) (?gk, NewXID 5 1) \<noteq> None" by (simp add: t pending_5_1)
  have p2: "map_of (tbl w_group) (?gk, NewXID 5 2) = None" by (simp add: t pending_5_2)
  from XACK_reports_existing [of w_group "''s''" "''g''" "[NewXID 5 1, NewXID 5 2]"] q d
  obtain acked where a: "XACK w_group ''s'' ''g'' [NewXID 5 1, NewXID 5 2] =
       ((acked, None), w_group\<lparr>tbl := delete_all (map (Pair ?gk) [NewXID 5 1, NewXID 5 2]) (tbl w_group)\<rparr>)"
     "acked = filter (\<lambda>xid. map_of (tbl w_group) (?gk, xid) \<noteq> None) [NewXID 5 1, NewXID 5 2]"
    by blast
  from a(2) p1 p2 have "acked = [NewXID 5 1]" by simp
  with a(1) have r1: "fst (XACK w_group ''s'' ''g'' [NewXID 5 1, NewXID 5 2]) = ([NewXID 5 1], None)"
    and r2: "map_of (tbl (snd (XACK w_group ''s'' ''g'' [NewXID 5 1, NewXID 5 2]))) (?gk, NewXID 5 1) = None"
    by (simp_all add: delete_conv')
  have f1: "XACK w_group_fault ''s'' ''g'' [NewXID 5 1] = (([NewXID 5 1], None), ?w1)"
    by (simp add: XACK_def DeleteItem_def arrive_def w_group_fault_def t pending_5_1)
  have e: "env ?w1 = Fault ''timeout'' # []" by simp
  from XACK_reports_existing [where w = w_group_fault and key = "''s''" and grp = "''g''"
      and ids = "[NewXID 5 1]" and ?acked1.0 = "[NewXID 5 1]" and ?w1.0 = ?w1
      and e = "''timeout''" and es = "[]" and xid = "NewXID 5 2" and later = "[NewXID 5 3]"] f1 e
  have f2: "XACK w_group_fault ''s'' ''g'' [NewXID 5 1, NewXID 5 2, NewXID 5 3] =
     (([NewXID 5 1], Some (StoreError ''timeout'')), ?w1\<lparr>env := []\<rparr>)"
    by simp
  from q d p1 p2 r1 r2 f1 f2 show ?thesis by simp
qed

lemma XCLAIM_at:
  assumes "XCLAIM w key grp consumer ldb pre = ((items, None), w1)"
  shows "XCLAIM w key grp consumer ldb (pre @ xid # later) =
         XCLAIM_loop w1 key grp consumer ldb (xid # later) items"
  using assms by (simp add: XCLAIM_def XCLAIM_loop_append)

lemma claimable_iff:
  "last_delivered t k = Some l \<Longrightarrow> claimable t k b \<longleftrightarrow> l \<le> b"
  by (simp add: claimable_def)

text \<open>
  C6. \<open>XCLAIM\<close>, by a client that is alone, at an ID whose pending entry was last
  delivered at the time \<open>l\<close>, after the IDs before it have been claimed without error.
  If \<open>l\<close> is after the threshold, the ID is passed over: the call goes on with the
  remaining IDs from the same table and the same items, and no error comes of it. If
  \<open>l\<close> is at or before the threshold and the stream item exists, the entry gets the
  requesting consumer, the delivery count 0 and the time now, and the stream item is
  appended to the result.
\<close>

theorem XCLAIM_threshold:
  assumes "XCLAIM w key grp consumer ldb pre = ((items, None), w1)"
    and "quiet w1"
    and "map_of (tbl w1) (xGroupKey key grp, xid) = Some m"
    and "last_delivered (tbl w1) (xGroupKey key grp, xid) = Some l"
  shows "(sint ldb < l \<longrightarrow>
            XCLAIM w key grp consumer ldb (pre @ xid # later) =
              XCLAIM_loop w1 key grp consumer ldb later items \<and>
            XCLAIM w key grp consumer ldb (pre @ [xid]) = ((items, None), w1)) \<and>
         (l \<le> sint ldb \<longrightarrow>
            (\<forall>f. map_of (tbl w1) (key, xid) = Some f \<longrightarrow>
               XCLAIM w key grp consumer ldb (pre @ xid # later) =
                 XCLAIM_loop
                   (w1\<lparr>tbl := AList.update (xGroupKey key grp, xid)
                      (m(lastDeliveryTimestampKey \<mapsto> NumV (sint (now w1)),
                         deliveryCountKey \<mapsto> NumV 0, consumerKey \<mapsto> StrV consumer)) (tbl w1)\<rparr>)
                   key grp consumer ldb later (items @ [\<lparr>ID = xid, Fields = (\<lambda>k. f (CHR ''_'' # k))\<rparr>]) \<and>
               XCLAIM w key grp consumer ldb (pre @ [xid]) =
                 ((items @ [\<lparr>ID = xid, Fields = (\<lambda>k. f (CHR ''_'' # k))\<rparr>], None),
                  w1\<lparr>tbl := AList.update (xGroupKey key grp, xid)
                      (m(lastDeliveryTimestampKey \<mapsto> NumV (sint (now w1)),
                         deliveryCountKey \<mapsto> NumV 0, consumerKey \<mapsto> StrV consumer)) (tbl w1)\<rparr>)))"
proof -
  note at = XCLAIM_at [OF assms(1)]
  note step = XCLAIM_step [OF assms(2)]
  note c = claimable_iff [OF assms(4)]
  have 1: "sint ldb < l \<longrightarrow>
            XCLAIM w key grp consumer ldb (pre @ xid # later) =
              XCLAIM_loop w1 key grp consumer ldb later items \<and>
            XCLAIM w key grp consumer ldb (pre @ [xid]) = ((items, None), w1)"
    by (simp add: at step c)
  have 2: "l \<le> sint ldb \<longrightarrow>
            (\<forall>f. map_of (tbl w1) (key, xid) = Some f \<longrightarrow>
               XCLAIM w key grp consumer ldb (pre @ xid # later) =
                 XCLAIM_loop
                   (w1\<lparr>tbl := AList.update (xGroupKey key grp, xid)
                      (m(lastDeliveryTimestampKey \<mapsto> NumV (sint (now w1)),
                         deliveryCountKey \<mapsto> NumV 0, consumerKey \<mapsto> StrV consumer)) (tbl w1)\<rparr>)
                   key grp consumer ldb later (items @ [\<lparr>ID = xid, Fields = (\<lambda>k. f (CHR ''_'' # k))\<rparr>]) \<and>
               XCLAIM w key grp consumer ldb (pre @ [xid]) =
                 ((items @ [\<lparr>ID = xid, Fields = (\<lambda>k. f (CHR ''_'' # k))\<rparr>], None),
                  w1\<lparr>tbl := AList.update (xGroupKey key grp, xid)
                      (m(lastDeliveryTimestampKey \<mapsto> NumV (sint (now w1)),
                         deliveryCountKey \<mapsto> NumV 0, consumerKey \<mapsto> StrV consumer)) (tbl w1)\<rparr>))"
    by (simp add: at step c stream_item_Some item_or_empty_Some [OF assms(3)] claimed_def
        parseStreamItem_def)
  from 1 2 show ?thesis by blast
qed

lemma stream_5_1: "map_of t_group (''s'', NewXID 5 1) = Some (toAV \<lparr>ID = NewXID 5 1, Fields = f_a1\<rparr>)"
  by (simp add: t_group_def)

lemma last_delivered_5_1: "last_delivered t_group (xGroupKey ''s'' ''g'', NewXID 5 1) = Some 100"
  by (simp add: last_delivered_def pending_5_1 pending_entry_def)

lemma toAV_fields: "(\<lambda>k. toAV i (CHR ''_'' # k)) = Fields i"
  by (simp add: toAV_def)

theorem XCLAIM_threshold_witness:
  "XCLAIM w_group ''s'' ''g'' ''c2'' 50 [] = (([], None), w_group) \<and>
   XCLAIM w_group ''s'' ''g'' ''c2'' 100 [] = (([], None), w_group) \<and>
   quiet w_group \<and>
   map_of (tbl w_group) (xGroupKey ''s'' ''g'', NewXID 5 1) = Some (pending_entry ''c1'' 100 1) \<and>
   last_delivered (tbl w_group) (xGroupKey ''s'' ''g'', NewXID 5 1) = Some 100 \<and>
   map_of (tbl w_group) (''s'', NewXID 5 1) = Some (toAV \<lparr>ID = NewXID 5 1, Fields = f_a1\<rparr>) \<and>
   sint (50 :: int64) < 100 \<and>
   XCLAIM w_group ''s'' ''g'' ''c2'' 50 [NewXID 5 1] = (([], None), w_group) \<and>
   (100 :: int) \<le> sint (100 :: int64) \<and>
   XCLAIM w_group ''s'' ''g'' ''c2'' 100 [NewXID 5 1] =
     (([\<lparr>ID = NewXID 5 1, Fields = f_a1\<rparr>], None),
      w_group\<lparr>tbl := AList.update (xGroupKey ''s'' ''g'', NewXID 5 1)
                        (pending_entry ''c2'' 1700000000 0) t_group\<rparr>)"
proof -
  let ?gk = "xGroupKey ''s'' ''g''"
  have p: "XCLAIM w_group ''s'' ''g'' ''c2'' 50 [] = (([], None), w_group)"
    "XCLAIM w_group ''s'' ''g'' ''c2'' 100 [] = (([], None), w_group)"
    by (simp_all add: XCLAIM_def)
  have q: "quiet w_group" by (simp add: quiet_def w_group_def)
  have t: "tbl w_group = t_group" "now w_group = 1700000000" by (simp_all add: w_group_def)
  have m: "map_of (tbl w_group) (?gk, NewXID 5 1) = Some (pending_entry ''c1'' 100 1)"
    by (simp add: t pending_5_1)
  have l: "last_delivered (tbl w_group) (?gk, NewXID 5 1) = Some 100"
    by (simp add: t last_delivered_5_1)
  have f: "map_of (tbl w_group) (''s'', NewXID 5 1) = Some (toAV \<lparr>ID = NewXID 5 1, Fields = f_a1\<rparr>)"
    by (simp add: t stream_5_1)
  have s: "sint (50 :: int64) < 100" "(100 :: int) \<le> sint (100 :: int64)" by simp_all
  have e: "(pending_entry ''c1'' 100 1)(lastDeliveryTimestampKey \<mapsto> NumV 1700000000,
       deliveryCountKey \<mapsto> NumV 0, consumerKey \<mapsto> StrV ''c2'') = pending_entry ''c2'' 1700000000 0"
    by (rule ext) (simp add: pending_entry_def)
  from XCLAIM_threshold [OF p(1) q m l, of "[]"] s(1)
  have a: "XCLAIM w_group ''s'' ''g'' ''c2'' 50 [NewXID 5 1] = (([], None), w_group)"
    by simp
  from XCLAIM_threshold [OF p(2) q m l, of "[]"] s(2) f
  have b: "XCLAIM w_group ''s'' ''g'' ''c2'' 100 [NewXID 5 1] =
     (([\<lparr>ID = NewXID 5 1, Fields = f_a1\<rparr>], None),
      w_group\<lparr>tbl := AList.update (?gk, NewXID 5 1) (pending_entry ''c2'' 1700000000 0) t_group\<rparr>)"
    by (simp add: e toAV_fields t)
  from p q m l f s a b show ?thesis by blast
qed

text \<open>
  C10. When the reassignment of a pending entry succeeds and the stream item is not
  there, \<open>XCLAIM\<close> stops: it answers the items gathered so far with an error and does
  not look at the remaining IDs, and the entry stays reassigned to the new consumer
  with the delivery count 0. \<open>XDEL\<close> removes stream items and leaves every pending
  entry of every group as it is, so such an entry can exist.
\<close>

theorem XCLAIM_missing_item:
  assumes "XCLAIM w key grp consumer ldb pre = ((items, None), w1)"
    and "quiet w1"
    and "map_of (tbl w1) (xGroupKey key grp, xid) = Some m"
    and "last_delivered (tbl w1) (xGroupKey key grp, xid) = Some l"
    and "l \<le> sint ldb"
    and "map_of (tbl w1) (key, xid) = None"
  shows "XCLAIM w key grp consumer ldb (pre @ xid # later) =
           ((items, Some (CouldNotLoadStreamItem None)),
            w1\<lparr>tbl := AList.update (xGroupKey key grp, xid) (claimed m (now w1) consumer) (tbl w1)\<rparr>) \<and>
         claimed m (now w1) consumer consumerKey = Some (StrV consumer) \<and>
         claimed m (now w1) consumer deliveryCountKey = Some (NumV 0) \<and>
         (quiet w0 \<longrightarrow>
            map_of (tbl (snd (XDEL w0 key ids))) (xGroupKey key grp, xid')
              = map_of (tbl w0) (xGroupKey key grp, xid'))"
proof -
  have "XCLAIM w key grp consumer ldb (pre @ xid # later) =
           ((items, Some (CouldNotLoadStreamItem None)),
            w1\<lparr>tbl := AList.update (xGroupKey key grp, xid) (claimed m (now w1) consumer) (tbl w1)\<rparr>)"
    using assms(5)
    by (simp add: XCLAIM_at [OF assms(1)] XCLAIM_step [OF assms(2)] claimable_iff [OF assms(4)]
        stream_item_None [OF assms(6)] item_or_empty_Some [OF assms(3)])
  moreover have "quiet w0 \<longrightarrow>
            map_of (tbl (snd (XDEL w0 key ids))) (xGroupKey key grp, xid')
              = map_of (tbl w0) (xGroupKey key grp, xid')"
    using xGroupKey_neq [of key grp] by (auto simp: XDEL_quiet map_of_delete_all)
  ultimately show ?thesis by (simp add: claimed_def)
qed

definition w_group_deleted :: world where
  "w_group_deleted = w_group\<lparr>tbl := AList.delete (''s'', NewXID 5 1) t_group\<rparr>"

theorem XCLAIM_missing_item_witness:
  "XDEL w_group ''s'' [NewXID 5 1] = (([NewXID 5 1], None), w_group_deleted) \<and>
   XCLAIM w_group_deleted ''s'' ''g'' ''c2'' 100 [] = (([], None), w_group_deleted) \<and>
   quiet w_group_deleted \<and>
   map_of (tbl w_group_deleted) (xGroupKey ''s'' ''g'', NewXID 5 1) = Some (pending_entry ''c1'' 100 1) \<and>
   last_delivered (tbl w_group_deleted) (xGroupKey ''s'' ''g'', NewXID 5 1) = Some 100 \<and>
   (100 :: int) \<le> sint (100 :: int64) \<and>
   map_of (tbl w_group_deleted) (''s'', NewXID 5 1) = None \<and>
   XCLAIM w_group_deleted ''s'' ''g'' ''c2'' 100 [NewXID 5 1, NewXID 5 2] =
     (([], Some (CouldNotLoadStreamItem None)),
      w_group_deleted\<lparr>tbl := AList.update (xGroupKey ''s'' ''g'', NewXID 5 1)
          (pending_entry ''c2'' 1700000000 0) (tbl w_group_deleted)\<rparr>)"
proof -
  let ?gk = "xGroupKey ''s'' ''g''"
  have q0: "quiet w_group" by (simp add: quiet_def w_group_def)
  have q: "quiet w_group_deleted" by (simp add: quiet_def w_group_deleted_def w_group_def)
  have t: "tbl w_group_deleted = AList.delete (''s'', NewXID 5 1) t_group"
    "now w_group_deleted = 1700000000"
    by (simp_all add: w_group_deleted_def w_group_def)
  have ne: "(?gk, NewXID 5 1) \<noteq> (''s'', NewXID 5 1)" by (simp add: xGroupKey_def)
  have d: "XDEL w_group ''s'' [NewXID 5 1] = (([NewXID 5 1], None), w_group_deleted)"
    using q0 by (simp add: XDEL_quiet w_group_deleted_def stream_5_1) (simp add: w_group_def stream_5_1)
  have p: "XCLAIM w_group_deleted ''s'' ''g'' ''c2'' 100 [] = (([], None), w_group_deleted)"
    by (simp add: XCLAIM_def)
  have m: "map_of (tbl w_group_deleted) (?gk, NewXID 5 1) = Some (pending_entry ''c1'' 100 1)"
    using ne by (simp add: t delete_conv' pending_5_1)
  then have l: "last_delivered (tbl w_group_deleted) (?gk, NewXID 5 1) = Some 100"
    by (simp add: last_delivered_def pending_entry_def)
  have s: "(100 :: int) \<le> sint (100 :: int64)" by simp
  have n: "map_of (tbl w_group_deleted) (''s'', NewXID 5 1) = None" by (simp add: t delete_conv')
  have e: "claimed (pending_entry ''c1'' 100 1) (now w_group_deleted) ''c2'' = pending_entry ''c2'' 1700000000 0"
    by (rule ext) (simp add: pending_entry_def claimed_def t)
  from XCLAIM_missing_item [OF p q m l s n, of "[NewXID 5 2]"]
  have x: "XCLAIM w_group_deleted ''s'' ''g'' ''c2'' 100 [NewXID 5 1, NewXID 5 2] =
     (([], Some (CouldNotLoadStreamItem None)),
      w_group_deleted\<lparr>tbl := AList.update (?gk, NewXID 5 1)
          (pending_entry ''c2'' 1700000000 0) (tbl w_group_deleted)\<rparr>)"
    by (simp add: e)
  from d p q m l s n x show ?thesis by blast
qed

lemma filter_notin_take:
  "distinct xs \<Longrightarrow> filter (\<lambda>x. x \<notin> set (take m xs)) xs = drop m xs"
proof -
  assume d: "distinct xs"
  then have dj: "set (take m xs) \<inter> set (drop m xs) = {}"
    by (metis append_take_drop_id distinct_append)
  let ?P = "\<lambda>x. x \<notin> set (take m xs)"
  have "filter ?P xs = filter ?P (take m xs) @ filter ?P (drop m xs)"
    by (metis append_take_drop_id filter_append)
  moreover have "filter ?P (take m xs) = []" by (simp add: filter_empty_conv)
  moreover have "filter ?P (drop m xs) = drop m xs" using dj by (auto simp: filter_id_conv)
  ultimately show ?thesis by simp
qed

lemma sint_of_nat32: "m < 2 ^ 31 \<Longrightarrow> sint (word_of_nat m :: 32 word) = int m"
proof -
  assume m: "m < 2 ^ 31"
  have "sint (word_of_int (int m) :: 32 word) = signed_take_bit (LENGTH(32) - 1) (int m)"
    by (rule sint_sbintrunc')
  also have "\<dots> = int m" using m by (intro signed_take_bit_int_eq_self) simp_all
  finally show ?thesis by simp
qed

lemma trimmed_None:
  "trimmed t key None n =
     rev (take (length (stream_ids t key) - unat n) (stream_ids t key))"
  by (simp add: trimmed_def scan_from_def stream_ids_def drop_rev)

text \<open>
  C9. \<open>XTRIM(key, N)\<close>, by a client that is alone: the \<open>N\<close> newest items of the stream
  stay, all older items are deleted and nothing else in the table changes, and the
  answer is the number of deleted items (as an \<open>int32\<close>; it is that number when the
  stream has fewer than \<open>2^31\<close> items). With \<open>N = 0\<close> no item is left; with \<open>N\<close> at
  least the length of the stream the table stays as it is and the answer is 0.
  \<open>N\<close> is read as the code's loop reads it, by counting down to 0: \<open>unat N\<close>, which is
  \<open>N\<close> for an \<open>N\<close> that is not negative.
\<close>

theorem XTRIM_keeps_newest:
  assumes "quiet w"
  shows "fst (XTRIM w key N) =
           (word_of_nat (length (stream_ids (tbl w) key) - unat N), None) \<and>
         stream_ids (tbl (snd (XTRIM w key N))) key =
           drop (length (stream_ids (tbl w) key) - unat N) (stream_ids (tbl w) key) \<and>
         (\<forall>k. map_of (tbl (snd (XTRIM w key N))) k =
            (if k \<in> Pair key ` set (take (length (stream_ids (tbl w) key) - unat N)
                                     (stream_ids (tbl w) key))
             then None else map_of (tbl w) k)) \<and>
         (length (stream_ids (tbl w) key) < 2 ^ 31 \<longrightarrow>
            sint (fst (fst (XTRIM w key N))) = int (length (stream_ids (tbl w) key) - unat N)) \<and>
         (N = 0 \<longrightarrow>
            stream_ids (tbl (snd (XTRIM w key N))) key = [] \<and>
            fst (XTRIM w key N) = (word_of_nat (length (stream_ids (tbl w) key)), None)) \<and>
         (length (stream_ids (tbl w) key) \<le> unat N \<longrightarrow> XTRIM w key N = ((0, None), w))"
proof -
  define ks where "ks = stream_ids (tbl w) key"
  define m where "m = length ks - unat N"
  have x: "XTRIM w key N =
      ((word_of_nat m, None), w\<lparr>tbl := delete_all (map (Pair key) (rev (take m ks))) (tbl w)\<rparr>)"
    using assms by (simp add: XTRIM_quiet trimmed_None ks_def m_def)
  have d: "distinct ks" by (simp add: ks_def stream_ids_def)
  have 1: "fst (XTRIM w key N) = (word_of_nat m, None)" by (simp add: x)
  have 2: "stream_ids (tbl (snd (XTRIM w key N))) key = drop m ks"
    using filter_notin_take [OF d, of m]
    by (simp add: x stream_ids_def part_keys_delete_all ks_def [unfolded stream_ids_def, symmetric])
  have 3: "\<forall>k. map_of (tbl (snd (XTRIM w key N))) k =
            (if k \<in> Pair key ` set (take m ks) then None else map_of (tbl w) k)"
    by (simp add: x map_of_delete_all)
  have 4: "length ks < 2 ^ 31 \<longrightarrow> sint (fst (fst (XTRIM w key N))) = int m"
  proof
    assume "length ks < 2 ^ 31"
    then have "m < 2 ^ 31" by (simp add: m_def)
    then have "sint (word_of_nat m :: 32 word) = int m" by (rule sint_of_nat32)
    then show "sint (fst (fst (XTRIM w key N))) = int m" by (simp add: x)
  qed
  have 5: "N = 0 \<longrightarrow> stream_ids (tbl (snd (XTRIM w key N))) key = [] \<and>
            fst (XTRIM w key N) = (word_of_nat (length ks), None)"
    using 1 2 by (auto simp: m_def)
  have 6: "length ks \<le> unat N \<longrightarrow> XTRIM w key N = ((0, None), w)"
    by (simp add: x m_def)
  from 1 2 3 4 5 6 show ?thesis unfolding ks_def m_def by blast
qed

lemma stream_ids_t_group: "stream_ids t_group ''s'' = [NewXID 5 1, NewXID 5 2]"
  by (simp add: stream_ids_def part_keys_def t_group_def xSequenceKey_def xGroupCursorKey_def
      xGroupKey_def XStart_le_NewXID NewXID_le_XEnd NewXID_inj NewXID_le pair_lt_def)

theorem XTRIM_keeps_newest_witness:
  "quiet w_group \<and> stream_ids (tbl w_group) ''s'' = [NewXID 5 1, NewXID 5 2] \<and>
   fst (XTRIM w_group ''s'' 1) = (1, None) \<and>
   stream_ids (tbl (snd (XTRIM w_group ''s'' 1))) ''s'' = [NewXID 5 2] \<and>
   map_of (tbl (snd (XTRIM w_group ''s'' 1))) (''s'', NewXID 5 1) = None \<and>
   map_of (tbl (snd (XTRIM w_group ''s'' 1))) (''s'', NewXID 5 2) =
     Some (toAV \<lparr>ID = NewXID 5 2, Fields = f_a1\<rparr>) \<and>
   sint (fst (fst (XTRIM w_group ''s'' 1))) = 1 \<and>
   fst (XTRIM w_group ''s'' 0) = (2, None) \<and>
   stream_ids (tbl (snd (XTRIM w_group ''s'' 0))) ''s'' = [] \<and>
   XTRIM w_group ''s'' 2 = ((0, None), w_group) \<and>
   XTRIM w_group ''s'' 7 = ((0, None), w_group)"
proof -
  have q: "quiet w_group" by (simp add: quiet_def w_group_def)
  have s: "stream_ids (tbl w_group) ''s'' = [NewXID 5 1, NewXID 5 2]"
    by (simp add: w_group_def stream_ids_t_group)
  have t: "tbl w_group = t_group" by (simp add: w_group_def)
  have i: "map_of t_group (''s'', NewXID 5 2) = Some (toAV \<lparr>ID = NewXID 5 2, Fields = f_a1\<rparr>)"
    by (simp add: t_group_def NewXID_inj)
  note x1 = XTRIM_keeps_newest [OF q, of "''s''" 1, unfolded s]
  note x0 = XTRIM_keeps_newest [OF q, of "''s''" 0, unfolded s]
  note x2 = XTRIM_keeps_newest [OF q, of "''s''" 2, unfolded s]
  note x7 = XTRIM_keeps_newest [OF q, of "''s''" 7, unfolded s]
  have a: "fst (XTRIM w_group ''s'' 1) = (1, None)"
    "stream_ids (tbl (snd (XTRIM w_group ''s'' 1))) ''s'' = [NewXID 5 2]"
    "sint (fst (fst (XTRIM w_group ''s'' 1))) = 1"
    using x1 by simp_all
  have b: "map_of (tbl (snd (XTRIM w_group ''s'' 1))) (''s'', NewXID 5 1) = None"
    "map_of (tbl (snd (XTRIM w_group ''s'' 1))) (''s'', NewXID 5 2) =
       Some (toAV \<lparr>ID = NewXID 5 2, Fields = f_a1\<rparr>)"
    using x1 by (simp_all add: t i NewXID_inj)
  have c: "fst (XTRIM w_group ''s'' 0) = (2, None)"
    "stream_ids (tbl (snd (XTRIM w_group ''s'' 0))) ''s'' = []"
    using x0 by simp_all
  have d: "XTRIM w_group ''s'' 2 = ((0, None), w_group)" "XTRIM w_group ''s'' 7 = ((0, None), w_group)"
    using x2 x7 by simp_all
  from q s a b c d show ?thesis by blast
qed

text \<open>A stream \<open>s\<close> with two items of the second 5: the one with the sequence number 1
  and the one with the last sequence number, \<open>2^64 - 1\<close>.\<close>

definition w_last_seq :: world where
  "w_last_seq =
     \<lparr>tbl = [((''s'', NewXID 5 1), toAV \<lparr>ID = NewXID 5 1, Fields = f_a1\<rparr>),
             ((''s'', NewXID 5 18446744073709551615),
                toAV \<lparr>ID = NewXID 5 18446744073709551615, Fields = f_a1\<rparr>),
             (xSequenceKey ''s'', [vk \<mapsto> StrV (NewXID 5 18446744073709551615)])],
      env = [], now = 1700000000, page = 2\<rparr>"

lemma last_seq_plus_one: "(18446744073709551615 :: uint64) + 1 = 0"
  by simp

lemma Next_last_seq: "Next (NewXID 5 18446744073709551615) = Return (NewXID 5 0)"
proof -
  have "Next (NewXID 5 18446744073709551615) = Return (NewXID 5 (18446744073709551615 + 1))"
    by (rule Next_NewXID) simp
  then show ?thesis by (simp only: last_seq_plus_one)
qed

lemma two_64_wraps: "(18446744073709551616 :: uint64) = 0"
  by simp

lemma Last_second: "Last (NewTimeXID 5) = Return ''00000000000000000005-99999999999999999999''"
  by (simp add: Last_def NewTimeXID_def Time_NewXID) (simp add: xid_eval)

lemma Next_Last_second: "Next ''00000000000000000005-99999999999999999999'' = Return (NewXID 5 0)"
  by (simp add: parse_eval two_64_wraps)

text \<open>
  C4. \<open>XREAD(key, from, count)\<close> is \<open>XRANGE(key, from.Next(), XEnd, count)\<close>, and
  \<open>Next\<close> adds 1 to a \<open>uint64\<close>: after the last sequence number of a second comes the
  sequence number 0 of the same second. Reading after the item \<open>5-(2^64-1)\<close> answers
  that item again, and the item \<open>5-1\<close> before it; so does reading after
  \<open>NewTimeXID(5).Last()\<close>, the end of the second 5.
\<close>

theorem XREAD_repeats_after_last_sequence:
  "Next (NewXID 5 18446744073709551615) = Return (NewXID 5 0) \<and>
   XREAD w_last_seq ''s'' (NewXID 5 18446744073709551615) 10 =
     Return (([\<lparr>ID = NewXID 5 1, Fields = f_a1\<rparr>,
               \<lparr>ID = NewXID 5 18446744073709551615, Fields = f_a1\<rparr>], None), w_last_seq) \<and>
   NewXID 5 1 < NewXID 5 18446744073709551615 \<and>
   Last (NewTimeXID 5) = Return ''00000000000000000005-99999999999999999999'' \<and>
   NewXID 5 18446744073709551615 < ''00000000000000000005-99999999999999999999'' \<and>
   XREAD w_last_seq ''s'' ''00000000000000000005-99999999999999999999'' 10 =
     Return (([\<lparr>ID = NewXID 5 1, Fields = f_a1\<rparr>,
               \<lparr>ID = NewXID 5 18446744073709551615, Fields = f_a1\<rparr>], None), w_last_seq)"
proof -
  have q: "quiet w_last_seq" by (simp add: quiet_def w_last_seq_def)
  have r: "range_items (tbl w_last_seq) ''s'' (NewXID 5 0) XEnd True None 10 =
      [\<lparr>ID = NewXID 5 1, Fields = f_a1\<rparr>, \<lparr>ID = NewXID 5 18446744073709551615, Fields = f_a1\<rparr>]"
    by (simp add: range_items_def part_keys_def w_last_seq_def xSequenceKey_def scan_from_def
        NewXID_le_XEnd NewXID_inj NewXID_le pair_lt_def page_items_def map_filter_def
        parseStreamItem_def toAV_fields)
  have a: "XREAD w_last_seq ''s'' (NewXID 5 18446744073709551615) 10 =
     Return (([\<lparr>ID = NewXID 5 1, Fields = f_a1\<rparr>,
               \<lparr>ID = NewXID 5 18446744073709551615, Fields = f_a1\<rparr>], None), w_last_seq)"
    by (simp add: XREAD_quiet [OF q Next_last_seq] r)
  have b: "XREAD w_last_seq ''s'' ''00000000000000000005-99999999999999999999'' 10 =
     Return (([\<lparr>ID = NewXID 5 1, Fields = f_a1\<rparr>,
               \<lparr>ID = NewXID 5 18446744073709551615, Fields = f_a1\<rparr>], None), w_last_seq)"
    by (simp add: XREAD_quiet [OF q Next_Last_second] r)
  have c: "NewXID 5 1 < NewXID 5 18446744073709551615"
    by (simp add: NewXID_less pair_lt_def)
  have e: "NewXID 5 18446744073709551615 = ''00000000000000000005-18446744073709551615''"
    by (simp add: xid_eval)
  have d: "NewXID 5 18446744073709551615 < ''00000000000000000005-99999999999999999999''"
    unfolding e by simp
  from Next_last_seq a b c d Last_second show ?thesis by blast
qed

end
